theory Spec2Isabelle
  imports Main "HOL-Library.Word" "HOL-Library.Multiset"
begin

section \<open>Supplementary group IDs: a model of kernel/groups.c\<close>

subsection \<open>Identifiers and limits\<close>

text \<open>
  \<open>gid_t\<close> is the user-visible 32-bit unsigned group number, \<open>kgid_t\<close> the
  kernel-internal one. The comparison helpers of uidgid.h compare the unsigned values.
\<close>

type_synonym gid_t = "32 word"
type_synonym kgid_t = "32 word"

definition kgid_val :: "kgid_t \<Rightarrow> gid_t" where
  "kgid_val g = g"

definition gid_eq :: "kgid_t \<Rightarrow> kgid_t \<Rightarrow> bool" where
  "gid_eq a b = (kgid_val a = kgid_val b)"

definition gid_gt :: "kgid_t \<Rightarrow> kgid_t \<Rightarrow> bool" where
  "gid_gt a b = (kgid_val a > kgid_val b)"

definition gid_lt :: "kgid_t \<Rightarrow> kgid_t \<Rightarrow> bool" where
  "gid_lt a b = (kgid_val a < kgid_val b)"

definition gid_lte :: "kgid_t \<Rightarrow> kgid_t \<Rightarrow> bool" where
  "gid_lte a b = (kgid_val a \<le> kgid_val b)"

text \<open>
  The constants \<open>NGROUPS_PER_BLOCK\<close> (identifiers per page), \<open>NGROUPS_SMALL\<close> (size of the
  embedded block) and \<open>NGROUPS_MAX\<close> come from headers outside this file; they are
  parameters of the model.
\<close>

record limits =
  NGROUPS_PER_BLOCK :: nat
  NGROUPS_SMALL :: nat
  NGROUPS_MAX :: nat

definition INT_MAX :: int where
  "INT_MAX = 2147483647"

definition limits_ok :: "limits \<Rightarrow> bool" where
  "limits_ok c = (0 < NGROUPS_PER_BLOCK c \<and> NGROUPS_SMALL c \<le> NGROUPS_PER_BLOCK c
     \<and> int (NGROUPS_PER_BLOCK c) \<le> INT_MAX)"

subsection \<open>The group set container\<close>

text \<open>
  \<open>struct group_info\<close>: a reference count, the number of identifiers, the number of
  block pointers, the embedded small block and the block pointers. A block pointer
  refers either to the structure's own \<open>small_block\<close> or to a page that this
  structure alone owns (a page is kept with its contents), or it has not been set yet.
\<close>

datatype block = Small_block | Page "kgid_t list" | Uninit

record group_info =
  usage :: int
  ngroups :: int
  nblocks :: int
  small_block :: "kgid_t list"
  blocks :: "block list"

definition cell :: "kgid_t list \<Rightarrow> nat \<Rightarrow> kgid_t option" where
  "cell pg off = (if off < length pg then Some (pg ! off) else None)"

definition cell_set :: "kgid_t list \<Rightarrow> nat \<Rightarrow> kgid_t \<Rightarrow> kgid_t list option" where
  "cell_set pg off v = (if off < length pg then Some (pg[off := v]) else None)"

text \<open>
  \<open>GROUP_AT(gi, i)\<close> is \<open>gi->blocks[i / NGROUPS_PER_BLOCK][i % NGROUPS_PER_BLOCK]\<close>.
  Modelled from the spec: the macro is defined in a header outside this file; the spec
  gives the two-level index. A read or write outside the storage the structure has is
  \<open>None\<close>: the C code would touch memory it does not own.
\<close>

definition GROUP_AT :: "limits \<Rightarrow> group_info \<Rightarrow> int \<Rightarrow> kgid_t option" where
  "GROUP_AT c gi i =
     (if i < 0 \<or> NGROUPS_PER_BLOCK c = 0 then None
      else let b = nat i div NGROUPS_PER_BLOCK c; off = nat i mod NGROUPS_PER_BLOCK c in
        if b < length (blocks gi) then
          (case blocks gi ! b of
             Small_block \<Rightarrow> cell (small_block gi) off
           | Page pg \<Rightarrow> cell pg off
           | Uninit \<Rightarrow> None)
        else None)"

definition GROUP_AT_set :: "limits \<Rightarrow> group_info \<Rightarrow> int \<Rightarrow> kgid_t \<Rightarrow> group_info option" where
  "GROUP_AT_set c gi i v =
     (if i < 0 \<or> NGROUPS_PER_BLOCK c = 0 then None
      else let b = nat i div NGROUPS_PER_BLOCK c; off = nat i mod NGROUPS_PER_BLOCK c in
        if b < length (blocks gi) then
          (case blocks gi ! b of
             Small_block \<Rightarrow>
               (case cell_set (small_block gi) off v of
                  None \<Rightarrow> None
                | Some sb \<Rightarrow> Some (gi\<lparr>small_block := sb\<rparr>))
           | Page pg \<Rightarrow>
               (case cell_set pg off v of
                  None \<Rightarrow> None
                | Some pg' \<Rightarrow> Some (gi\<lparr>blocks := (blocks gi)[b := Page pg']\<rparr>))
           | Uninit \<Rightarrow> None)
        else None)"

text \<open>The identifiers a structure holds, in index order.\<close>

definition gids :: "limits \<Rightarrow> group_info \<Rightarrow> kgid_t list" where
  "gids c gi = map (\<lambda>i. the (GROUP_AT c gi (int i))) [0..<nat (ngroups gi)]"

text \<open>
  A structure as \<open>groups_alloc\<close> lays it out: a count that fits an \<open>int\<close>, the embedded
  block of \<open>NGROUPS_SMALL\<close> cells, and either the single pointer to the embedded block
  (small sets) or \<open>nblocks\<close> whole pages that cover the count.
\<close>

definition is_page :: "limits \<Rightarrow> block \<Rightarrow> bool" where
  "is_page c b = (case b of Page pg \<Rightarrow> length pg = NGROUPS_PER_BLOCK c | _ \<Rightarrow> False)"

definition group_info_ok :: "limits \<Rightarrow> group_info \<Rightarrow> bool" where
  "group_info_ok c gi =
     (limits_ok c \<and> 0 \<le> ngroups gi \<and> ngroups gi \<le> INT_MAX
      \<and> length (small_block gi) = NGROUPS_SMALL c
      \<and> int (length (blocks gi)) = nblocks gi
      \<and> (if ngroups gi \<le> int (NGROUPS_SMALL c) then blocks gi = [Small_block]
         else list_all (is_page c) (blocks gi)
              \<and> ngroups gi \<le> nblocks gi * int (NGROUPS_PER_BLOCK c)))"

subsection \<open>Search\<close>

text \<open>
  \<open>groups_search\<close>: the binary search. \<open>left\<close>, \<open>right\<close> and \<open>mid\<close> are
  \<open>unsigned int\<close>: the sum wraps at \<open>2^32\<close>. The argument is a pointer that may be
  \<open>NULL\<close> (\<open>None\<close>). The result is the C \<open>int\<close> 1 or 0; \<open>None\<close> stands for a run
  that faults or does not return.
\<close>

definition u32 :: "int \<Rightarrow> nat" where
  "u32 x = nat (x mod 4294967296)"

partial_function (option) groups_search_loop ::
  "limits \<Rightarrow> group_info \<Rightarrow> kgid_t \<Rightarrow> nat \<Rightarrow> nat \<Rightarrow> int option" where
  "groups_search_loop c gi grp left right =
     (if left < right then
        (let mid = ((left + right) mod 4294967296) div 2 in
         case GROUP_AT c gi (int mid) of
           None \<Rightarrow> None
         | Some g \<Rightarrow>
             if gid_gt grp g then groups_search_loop c gi grp ((mid + 1) mod 4294967296) right
             else if gid_lt grp g then groups_search_loop c gi grp left mid
             else Some 1)
      else Some 0)"

declare groups_search_loop.simps [code]

definition groups_search :: "limits \<Rightarrow> group_info option \<Rightarrow> kgid_t \<Rightarrow> int option" where
  "groups_search c group_info grp =
     (case group_info of
        None \<Rightarrow> Some 0
      | Some gi \<Rightarrow> groups_search_loop c gi grp 0 (u32 (ngroups gi)))"

subsection \<open>Subset check\<close>

text \<open>
  \<open>is_subset\<close>: one forward cursor on each list. The inner \<open>for\<close> loop moves \<open>j\<close> to
  the first identifier of \<open>g2\<close> that is not below \<open>gid1\<close> and leaves it in \<open>gid2\<close>;
  when the loop runs off the end, \<open>gid2\<close> is not read (\<open>None\<close> here). The cursors are
  \<open>unsigned int\<close>.
\<close>

partial_function (option) is_subset_scan ::
  "limits \<Rightarrow> group_info \<Rightarrow> kgid_t \<Rightarrow> nat \<Rightarrow> (nat \<times> kgid_t option) option" where
  "is_subset_scan c g2 gid1 j =
     (if j < u32 (ngroups g2) then
        (case GROUP_AT c g2 (int j) of
           None \<Rightarrow> None
         | Some gid2 \<Rightarrow>
             if gid_lte gid1 gid2 then Some (j, Some gid2)
             else is_subset_scan c g2 gid1 ((j + 1) mod 4294967296))
      else Some (j, None))"

declare is_subset_scan.simps [code]

partial_function (option) is_subset_loop ::
  "limits \<Rightarrow> group_info \<Rightarrow> group_info \<Rightarrow> nat \<Rightarrow> nat \<Rightarrow> bool option" where
  "is_subset_loop c g1 g2 i j =
     (if i < u32 (ngroups g1) then
        (case GROUP_AT c g1 (int i) of
           None \<Rightarrow> None
         | Some gid1 \<Rightarrow>
             (case is_subset_scan c g2 gid1 j of
                None \<Rightarrow> None
              | Some (j', gid2) \<Rightarrow>
                  if j' \<ge> u32 (ngroups g2) then Some False
                  else (case gid2 of
                          None \<Rightarrow> None
                        | Some g \<Rightarrow>
                            if \<not> gid_eq gid1 g then Some False
                            else is_subset_loop c g1 g2 ((i + 1) mod 4294967296)
                                   ((j' + 1) mod 4294967296))))
      else Some True)"

declare is_subset_loop.simps [code]

definition is_subset :: "limits \<Rightarrow> group_info \<Rightarrow> group_info \<Rightarrow> bool option" where
  "is_subset c g1 g2 = is_subset_loop c g1 g2 0 0"

subsection \<open>Sort\<close>

text \<open>
  \<open>groups_sort\<close>: the Shell sort. All its variables are \<open>int\<close>. The first loop
  computes the starting stride; \<open>3 * stride + 1\<close> beyond \<open>INT_MAX\<close> is signed overflow
  and gives no result. C division truncates towards zero.
\<close>

definition int_fits :: "int \<Rightarrow> bool" where
  "int_fits x = (- 2147483648 \<le> x \<and> x \<le> INT_MAX)"

definition c_div :: "int \<Rightarrow> int \<Rightarrow> int" where
  "c_div a b = sgn a * sgn b * (\<bar>a\<bar> div \<bar>b\<bar>)"

partial_function (option) sort_stride :: "int \<Rightarrow> int \<Rightarrow> int option" where
  "sort_stride gidsetsize stride =
     (if stride < gidsetsize then
        (if int_fits (3 * stride + 1) then sort_stride gidsetsize (3 * stride + 1) else None)
      else Some stride)"

declare sort_stride.simps [code]

text \<open>The inner \<open>while\<close> loop: shift larger identifiers up by \<open>stride\<close>.\<close>

partial_function (option) sort_shift ::
  "limits \<Rightarrow> group_info \<Rightarrow> int \<Rightarrow> kgid_t \<Rightarrow> int \<Rightarrow> int \<Rightarrow> (group_info \<times> int) option" where
  "sort_shift c gi stride tmp left right =
     (if left \<ge> 0 then
        (case GROUP_AT c gi left of
           None \<Rightarrow> None
         | Some g \<Rightarrow>
             if gid_gt g tmp then
               (case GROUP_AT_set c gi right g of
                  None \<Rightarrow> None
                | Some gi' \<Rightarrow> sort_shift c gi' stride tmp (left - stride) left)
             else Some (gi, right))
      else Some (gi, right))"

declare sort_shift.simps [code]

text \<open>The \<open>for (base = 0; base < max; base++)\<close> loop: one pass with a fixed stride.\<close>

partial_function (option) sort_pass ::
  "limits \<Rightarrow> group_info \<Rightarrow> int \<Rightarrow> int \<Rightarrow> int \<Rightarrow> group_info option" where
  "sort_pass c gi stride max' base =
     (if base < max' then
        (let left = base; right = left + stride in
         case GROUP_AT c gi right of
           None \<Rightarrow> None
         | Some tmp \<Rightarrow>
             (case sort_shift c gi stride tmp left right of
                None \<Rightarrow> None
              | Some (gi', right') \<Rightarrow>
                  (case GROUP_AT_set c gi' right' tmp of
                     None \<Rightarrow> None
                   | Some gi'' \<Rightarrow> sort_pass c gi'' stride max' (base + 1))))
      else Some gi)"

declare sort_pass.simps [code]

text \<open>The \<open>while (stride)\<close> loop.\<close>

partial_function (option) sort_passes ::
  "limits \<Rightarrow> group_info \<Rightarrow> int \<Rightarrow> int \<Rightarrow> group_info option" where
  "sort_passes c gi gidsetsize stride =
     (if stride \<noteq> 0 then
        (case sort_pass c gi stride (gidsetsize - stride) 0 of
           None \<Rightarrow> None
         | Some gi' \<Rightarrow> sort_passes c gi' gidsetsize (c_div stride 3))
      else Some gi)"

declare sort_passes.simps [code]

definition groups_sort :: "limits \<Rightarrow> group_info \<Rightarrow> group_info option" where
  "groups_sort c gi =
     (let gidsetsize = ngroups gi in
      case sort_stride gidsetsize 1 of
        None \<Rightarrow> None
      | Some stride \<Rightarrow> sort_passes c gi gidsetsize (c_div stride 3))"

subsection \<open>Kernel state\<close>

text \<open>
  Error numbers the functions return (negated, in C), and the results of the entry
  points: an error or the non-negative \<open>int\<close> returned.
\<close>

datatype errno = EPERM | ENOMEM | EFAULT | EINVAL

text \<open>
  \<open>struct cred\<close> is declared in cred.h; of its fields the real, effective and
  filesystem group, the pointer to the group set, and the answer of
  \<open>ns_capable(current_user_ns(), CAP_SETGID)\<close> for a task with these credentials.
\<close>

record cred =
  gid :: kgid_t
  egid :: kgid_t
  fsgid :: kgid_t
  cap_setgid :: bool
  cred_group_info :: nat

text \<open>
  The state the functions work on: the \<open>group_info\<close> structures that \<open>kmalloc\<close> has
  handed out and \<open>kfree\<close> has not taken back, by address; the next address \<open>kmalloc\<close>
  uses; the number of pages handed out by \<open>__get_free_page\<close> and not freed; what the
  coming allocation attempts answer (\<open>False\<close>: the attempt fails; past the end of the
  list every attempt succeeds); what fresh memory holds; the credentials of the current
  task; the current task and the task \<open>get_dumpTsk\<close> names; user memory in units of
  \<open>gid_t\<close> (an address outside the map faults); the user namespace's translations.
\<close>

record kstate =
  kmem :: "nat \<rightharpoonup> group_info"
  brk :: nat
  pages :: int
  alloc_plan :: "bool list"
  stale :: "nat \<Rightarrow> kgid_t"
  current_cred :: cred
  current_task :: int
  dumpTsk :: int
  umem :: "int \<rightharpoonup> gid_t"
  make_kgid :: "gid_t \<Rightarrow> kgid_t"
  from_kgid_munged :: "kgid_t \<Rightarrow> gid_t"

definition alloc_ok :: "kstate \<Rightarrow> bool" where
  "alloc_ok s = (case alloc_plan s of [] \<Rightarrow> True | ok # _ \<Rightarrow> ok)"

definition alloc_next :: "kstate \<Rightarrow> kstate" where
  "alloc_next s = s\<lparr>alloc_plan := tl (alloc_plan s)\<rparr>"

text \<open>
  \<open>kmalloc\<close> of a \<open>group_info\<close> with room for \<open>n\<close> block pointers: \<open>None\<close> is \<open>NULL\<close>.
  On success the structure is live at the address returned, until \<open>kfree\<close>. Its small
  block holds what the memory held and no block pointer is set; \<open>usage\<close>, \<open>ngroups\<close>
  and \<open>nblocks\<close> are written by \<open>groups_alloc\<close> before anything reads them, and start
  at 0 here.
\<close>

definition kmalloc :: "limits \<Rightarrow> int \<Rightarrow> kstate \<Rightarrow> nat option \<times> kstate" where
  "kmalloc c n s =
     (if alloc_ok s then
        (Some (brk s),
         (alloc_next s)\<lparr>brk := brk s + 1,
            kmem := (kmem s)(brk s \<mapsto> \<lparr>usage = 0, ngroups = 0, nblocks = 0,
               small_block = map (stale s) [0..<NGROUPS_SMALL c],
               blocks = replicate (nat n) Uninit\<rparr>)\<rparr>)
      else (None, alloc_next s))"

definition kfree :: "nat \<Rightarrow> kstate \<Rightarrow> kstate option" where
  "kfree p s = (case kmem s p of None \<Rightarrow> None | Some _ \<Rightarrow> Some (s\<lparr>kmem := (kmem s)(p := None)\<rparr>))"

definition get_free_page :: "limits \<Rightarrow> kstate \<Rightarrow> block option \<times> kstate" where
  "get_free_page c s =
     (if alloc_ok s then
        (Some (Page (map (stale s) [0..<NGROUPS_PER_BLOCK c])), (alloc_next s)\<lparr>pages := pages s + 1\<rparr>)
      else (None, alloc_next s))"

text \<open>\<open>free_page\<close> of a pointer that is not a page is a fault.\<close>

definition free_page :: "block \<Rightarrow> kstate \<Rightarrow> kstate option" where
  "free_page b s = (case b of Page _ \<Rightarrow> Some (s\<lparr>pages := pages s - 1\<rparr>) | _ \<Rightarrow> None)"

definition block_at :: "group_info \<Rightarrow> int \<Rightarrow> block option" where
  "block_at gi i = (if 0 \<le> i \<and> nat i < length (blocks gi) then Some (blocks gi ! nat i) else None)"

subsection \<open>Allocation and release\<close>

text \<open>The \<open>for\<close> loop of \<open>groups_alloc\<close>: the result says whether every page was
  obtained, and gives the structure, \<open>i\<close> and the state at the exit.\<close>

partial_function (option) groups_alloc_pages ::
  "limits \<Rightarrow> group_info \<Rightarrow> int \<Rightarrow> kstate \<Rightarrow> (bool \<times> group_info \<times> int \<times> kstate) option" where
  "groups_alloc_pages c gi i s =
     (if i < nblocks gi then
        (case get_free_page c s of
           (None, s1) \<Rightarrow> Some (False, gi, i, s1)
         | (Some b, s1) \<Rightarrow>
             if 0 \<le> i \<and> nat i < length (blocks gi) then
               groups_alloc_pages c (gi\<lparr>blocks := (blocks gi)[nat i := b]\<rparr>) (i + 1) s1
             else None)
      else Some (True, gi, i, s))"

declare groups_alloc_pages.simps [code]

text \<open>\<open>out_undo_partial_alloc\<close>: \<open>while (--i >= 0) free_page(blocks[i])\<close>.\<close>

partial_function (option) groups_alloc_undo ::
  "group_info \<Rightarrow> int \<Rightarrow> kstate \<Rightarrow> kstate option" where
  "groups_alloc_undo gi i s =
     (if i - 1 \<ge> 0 then
        (case block_at gi (i - 1) of
           None \<Rightarrow> None
         | Some b \<Rightarrow>
             (case free_page b s of
                None \<Rightarrow> None
              | Some s1 \<Rightarrow> groups_alloc_undo gi (i - 1) s1))
      else Some s)"

declare groups_alloc_undo.simps [code]

text \<open>
  \<open>groups_alloc\<close>: the result is the address of the new structure or \<open>NULL\<close>. The sum
  \<open>gidsetsize + NGROUPS_PER_BLOCK - 1\<close> is an \<open>int\<close>: beyond its range there is no
  result. The \<open>for\<close> loop works on the structure at \<open>group_info\<close>, which is stored back
  at both of its exits; \<open>out_undo_partial_alloc\<close> frees the pages obtained and then the
  structure itself.
\<close>

definition groups_alloc :: "limits \<Rightarrow> int \<Rightarrow> kstate \<Rightarrow> (nat option \<times> kstate) option" where
  "groups_alloc c gidsetsize s =
     (if NGROUPS_PER_BLOCK c = 0 \<or> \<not> int_fits (gidsetsize + int (NGROUPS_PER_BLOCK c) - 1) then None
      else
        let nblocks0 = c_div (gidsetsize + int (NGROUPS_PER_BLOCK c) - 1) (int (NGROUPS_PER_BLOCK c));
            nblocks1 = (if nblocks0 \<noteq> 0 then nblocks0 else 1)
        in case kmalloc c nblocks1 s of
             (None, s1) \<Rightarrow> Some (None, s1)
           | (Some group_info, s1) \<Rightarrow>
               (case kmem s1 group_info of
                  None \<Rightarrow> None
                | Some g0 \<Rightarrow>
                    let gi = g0\<lparr>ngroups := gidsetsize, nblocks := nblocks1, usage := 1\<rparr>;
                        s2 = s1\<lparr>kmem := (kmem s1)(group_info \<mapsto> gi)\<rparr>
                    in if gidsetsize \<le> int (NGROUPS_SMALL c) then
                         Some (Some group_info,
                               s2\<lparr>kmem := (kmem s2)(group_info \<mapsto>
                                             gi\<lparr>blocks := (blocks gi)[0 := Small_block]\<rparr>)\<rparr>)
                       else
                         (case groups_alloc_pages c gi 0 s2 of
                            None \<Rightarrow> None
                          | Some (True, gi', i, s3) \<Rightarrow>
                              Some (Some group_info, s3\<lparr>kmem := (kmem s3)(group_info \<mapsto> gi')\<rparr>)
                          | Some (False, gi', i, s3) \<Rightarrow>
                              (case groups_alloc_undo gi' i (s3\<lparr>kmem := (kmem s3)(group_info \<mapsto> gi')\<rparr>) of
                                 None \<Rightarrow> None
                               | Some s4 \<Rightarrow>
                                   (case kfree group_info s4 of
                                      None \<Rightarrow> None
                                    | Some s5 \<Rightarrow> Some (None, s5))))))"

text \<open>The \<open>for\<close> loop of \<open>groups_free\<close>.\<close>

partial_function (option) groups_free_pages ::
  "group_info \<Rightarrow> int \<Rightarrow> kstate \<Rightarrow> kstate option" where
  "groups_free_pages gi i s =
     (if i < nblocks gi then
        (case block_at gi i of
           None \<Rightarrow> None
         | Some b \<Rightarrow>
             (case free_page b s of
                None \<Rightarrow> None
              | Some s1 \<Rightarrow> groups_free_pages gi (i + 1) s1))
      else Some s)"

declare groups_free_pages.simps [code]

definition groups_free :: "nat \<Rightarrow> kstate \<Rightarrow> kstate option" where
  "groups_free p s =
     (case kmem s p of
        None \<Rightarrow> None
      | Some gi \<Rightarrow>
          (case block_at gi 0 of
             None \<Rightarrow> None
           | Some b0 \<Rightarrow>
               if b0 \<noteq> Small_block then
                 (case groups_free_pages gi 0 s of
                    None \<Rightarrow> None
                  | Some s1 \<Rightarrow> kfree p s1)
               else kfree p s))"

text \<open>
  Modelled from the spec: \<open>get_group_info\<close> and \<open>put_group_info\<close> are defined in
  cred.h. Retaining increments the count; releasing decrements it and at zero frees the
  structure with \<open>groups_free\<close>. \<open>None\<close>: the pointer does not refer to a live structure.
\<close>

definition get_group_info :: "nat \<Rightarrow> kstate \<Rightarrow> kstate option" where
  "get_group_info p s =
     (case kmem s p of
        None \<Rightarrow> None
      | Some gi \<Rightarrow> Some (s\<lparr>kmem := (kmem s)(p \<mapsto> gi\<lparr>usage := usage gi + 1\<rparr>)\<rparr>))"

definition put_group_info :: "nat \<Rightarrow> kstate \<Rightarrow> kstate option" where
  "put_group_info p s =
     (case kmem s p of
        None \<Rightarrow> None
      | Some gi \<Rightarrow>
          let s1 = s\<lparr>kmem := (kmem s)(p \<mapsto> gi\<lparr>usage := usage gi - 1\<rparr>)\<rparr>
          in if usage gi - 1 = 0 then groups_free p s1 else Some s1)"

subsection \<open>Installing a group set\<close>

text \<open>The functions below take the pointer; these load the structure it refers to.\<close>

definition groups_sort_ptr :: "limits \<Rightarrow> nat \<Rightarrow> kstate \<Rightarrow> kstate option" where
  "groups_sort_ptr c p s =
     (case kmem s p of
        None \<Rightarrow> None
      | Some gi \<Rightarrow>
          (case groups_sort c gi of
             None \<Rightarrow> None
           | Some gi' \<Rightarrow> Some (s\<lparr>kmem := (kmem s)(p \<mapsto> gi')\<rparr>)))"

definition is_subset_ptr :: "limits \<Rightarrow> nat \<Rightarrow> nat \<Rightarrow> kstate \<Rightarrow> bool option" where
  "is_subset_ptr c p1 p2 s =
     (case kmem s p1 of
        None \<Rightarrow> None
      | Some g1 \<Rightarrow> (case kmem s p2 of None \<Rightarrow> None | Some g2 \<Rightarrow> is_subset c g1 g2))"

text \<open>\<open>set_groups_sorted\<close>: \<open>new\<close> is the caller's private draft, returned updated.\<close>

definition set_groups_sorted :: "cred \<Rightarrow> nat \<Rightarrow> kstate \<Rightarrow> (cred \<times> kstate) option" where
  "set_groups_sorted new group_info s =
     (case put_group_info (cred_group_info new) s of
        None \<Rightarrow> None
      | Some s1 \<Rightarrow>
          (case get_group_info group_info s1 of
             None \<Rightarrow> None
           | Some s2 \<Rightarrow> Some (new\<lparr>cred_group_info := group_info\<rparr>, s2)))"


text \<open>
  Modelled from the spec: \<open>prepare_creds\<close>, \<open>abort_creds\<close> and \<open>commit_creds\<close> belong to
  the credential subsystem (kernel/cred.c). \<open>prepare_creds\<close> gives a private copy of
  the current credentials, which holds its own reference to the group set, or \<open>NULL\<close>
  when out of memory; \<open>abort_creds\<close> discards a draft; \<open>commit_creds\<close> publishes a draft
  as the current credentials, drops the previous credentials and returns 0.
\<close>

definition prepare_creds :: "kstate \<Rightarrow> (cred option \<times> kstate) option" where
  "prepare_creds s =
     (if alloc_ok s then
        (case get_group_info (cred_group_info (current_cred s)) (alloc_next s) of
           None \<Rightarrow> None
         | Some s1 \<Rightarrow> Some (Some (current_cred s), s1))
      else Some (None, alloc_next s))"

definition abort_creds :: "cred \<Rightarrow> kstate \<Rightarrow> kstate option" where
  "abort_creds new s = put_group_info (cred_group_info new) s"

definition commit_creds :: "cred \<Rightarrow> kstate \<Rightarrow> (int \<times> kstate) option" where
  "commit_creds new s =
     (case put_group_info (cred_group_info (current_cred s)) (s\<lparr>current_cred := new\<rparr>) of
        None \<Rightarrow> None
      | Some s1 \<Rightarrow> Some (0, s1))"

definition ns_capable_setgid :: "kstate \<Rightarrow> bool" where
  "ns_capable_setgid s = cap_setgid (current_cred s)"

definition set_current_groups ::
  "limits \<Rightarrow> nat \<Rightarrow> kstate \<Rightarrow> ((errno + int) \<times> kstate) option" where
  "set_current_groups c group_info s =
     (case groups_sort_ptr c group_info s of
        None \<Rightarrow> None
      | Some s1 \<Rightarrow>
          (case prepare_creds s1 of
             None \<Rightarrow> None
           | Some (None, s2) \<Rightarrow> Some (Inl ENOMEM, s2)
           | Some (Some new, s2) \<Rightarrow>
               (case (if \<not> ns_capable_setgid s2
                      then map_option Not (is_subset_ptr c group_info (cred_group_info new) s2)
                      else Some False) of
                  None \<Rightarrow> None
                | Some True \<Rightarrow>
                    (case abort_creds new s2 of
                       None \<Rightarrow> None
                     | Some s3 \<Rightarrow> Some (Inl EPERM, s3))
                | Some False \<Rightarrow>
                    (case set_groups_sorted new group_info s2 of
                       None \<Rightarrow> None
                     | Some (new', s3) \<Rightarrow>
                         (case commit_creds new' s3 of
                            None \<Rightarrow> None
                          | Some (r, s4) \<Rightarrow> Some (Inr r, s4))))))"

subsection \<open>Transfer to and from user memory\<close>










subsection \<open>The entry points\<close>




subsection \<open>Membership queries\<close>

definition AID_SDCARD_RW :: gid_t where
  "AID_SDCARD_RW = 1015"

definition AID_SDCARD_R :: gid_t where
  "AID_SDCARD_R = 1028"

definition get_dumpTsk :: "kstate \<Rightarrow> int" where
  "get_dumpTsk s = dumpTsk s"

definition in_group_p :: "limits \<Rightarrow> kgid_t \<Rightarrow> kstate \<Rightarrow> int option" where
  "in_group_p c grp s =
     (let cred = current_cred s; retval = 1 in
      if get_dumpTsk s = current_task s
         \<and> (kgid_val grp = AID_SDCARD_RW \<or> kgid_val grp = AID_SDCARD_R) then Some 1
      else if \<not> gid_eq grp (fsgid cred) then
        (case kmem s (cred_group_info cred) of
           None \<Rightarrow> None
         | Some gi \<Rightarrow> groups_search c (Some gi) grp)
      else Some retval)"

definition in_egroup_p :: "limits \<Rightarrow> kgid_t \<Rightarrow> kstate \<Rightarrow> int option" where
  "in_egroup_p c grp s =
     (let cred = current_cred s; retval = 1 in
      if \<not> gid_eq grp (egid cred) then
        (case kmem s (cred_group_info cred) of
           None \<Rightarrow> None
         | Some gi \<Rightarrow> groups_search c (Some gi) grp)
      else Some retval)"

subsection \<open>Notions used in the proofs\<close>

text \<open>
  The first \<open>m\<close> identifiers are in order; the insertion loop's invariant (the cell
  \<open>r\<close> is the hole that \<open>tmp\<close> will fill); the strides the first loop of the sort runs
  through.
\<close>

definition prefix_sorted :: "kgid_t list \<Rightarrow> nat \<Rightarrow> bool" where
  "prefix_sorted xs m = (\<forall>i j. i \<le> j \<and> j < m \<longrightarrow> xs ! i \<le> xs ! j)"

definition hole_inv :: "kgid_t list \<Rightarrow> nat \<Rightarrow> nat \<Rightarrow> kgid_t \<Rightarrow> bool" where
  "hole_inv xs r b tmp =
     (r \<le> b \<and> (\<forall>i j. i \<le> j \<and> j \<le> b \<and> i \<noteq> r \<and> j \<noteq> r \<longrightarrow> xs ! i \<le> xs ! j)
      \<and> (\<forall>j. r < j \<and> j \<le> b \<longrightarrow> tmp < xs ! j))"

inductive stride_seq :: "int \<Rightarrow> bool" where
  stride_seq_1: "stride_seq 1"
| stride_seq_next: "stride_seq s \<Longrightarrow> stride_seq (3 * s + 1)"

text \<open>
  The pages a structure holds; and the allocator's promise that addresses from \<open>brk\<close>
  on are not in use.
\<close>

definition held_pages :: "limits \<Rightarrow> group_info \<Rightarrow> int" where
  "held_pages c gi = (if ngroups gi \<le> int (NGROUPS_SMALL c) then 0 else nblocks gi)"

definition heap_ok :: "kstate \<Rightarrow> bool" where
  "heap_ok s = (\<forall>a. brk s \<le> a \<longrightarrow> kmem s a = None)"






subsection \<open>Concrete inputs\<close>

text \<open>
  The limits of a kernel with 4 KiB pages, and a small set that holds the given
  identifiers in its embedded block.
\<close>

definition ex_limits :: limits where
  "ex_limits = \<lparr>NGROUPS_PER_BLOCK = 1024, NGROUPS_SMALL = 32, NGROUPS_MAX = 65536\<rparr>"

definition small_set :: "kgid_t list \<Rightarrow> group_info" where
  "small_set xs = \<lparr>usage = 1, ngroups = int (length xs), nblocks = 1,
     small_block = xs @ replicate (32 - length xs) 0, blocks = [Small_block]\<rparr>"

text \<open>
  A state with one live set \<open>{100, 200}\<close> at address 0, held by the credentials of an
  unprivileged current task; no pages in use.
\<close>

definition ex_state :: kstate where
  "ex_state = \<lparr>kmem = [0 \<mapsto> small_set [100, 200]], brk = 1, pages = 0, alloc_plan = [],
     stale = (\<lambda>_. 0),
     current_cred = \<lparr>gid = 1000, egid = 1000, fsgid = 1000, cap_setgid = False,
       cred_group_info = 0\<rparr>,
     current_task = 1, dumpTsk = 0, umem = Map.empty, make_kgid = id, from_kgid_munged = id\<rparr>"

text \<open>The same state with a requested set at address 1, referenced once by its caller.\<close>

definition ex_request :: "kgid_t list \<Rightarrow> kstate" where
  "ex_request xs = ex_state\<lparr>kmem := (kmem ex_state)(1 \<mapsto> small_set xs), brk := 2\<rparr>"



lemma block_index_lt:
  assumes "0 < (p::nat)" "int n < m * int p"
  shows "n div p < nat m"
proof -
  have "0 < m"
  proof (rule ccontr)
    assume "\<not> 0 < m"
    then have "m * int p \<le> 0" by (simp add: mult_le_0_iff)
    then show False using assms(2) by simp
  qed
  then have "int (nat m) = m" by simp
  then have "int (nat m * p) = m * int p" by (simp only: of_nat_mult)
  then have "int n < int (nat m * p)" using assms(2) by (simp only:)
  then have "n < nat m * p" by (simp only: of_nat_less_iff)
  then show ?thesis by (simp add: less_mult_imp_div_less)
qed

lemma GROUP_AT_small:
  assumes "group_info_ok c gi" "ngroups gi \<le> int (NGROUPS_SMALL c)" "0 \<le> i" "i < ngroups gi"
  shows "GROUP_AT c gi i = Some (small_block gi ! nat i)"
  using assms
  by (auto simp: group_info_ok_def limits_ok_def GROUP_AT_def cell_def Let_def)

lemma GROUP_AT_paged:
  assumes "group_info_ok c gi" "\<not> ngroups gi \<le> int (NGROUPS_SMALL c)" "0 \<le> i" "i < ngroups gi"
  shows "\<exists>pg. blocks gi ! (nat i div NGROUPS_PER_BLOCK c) = Page pg
            \<and> length pg = NGROUPS_PER_BLOCK c
            \<and> nat i div NGROUPS_PER_BLOCK c < length (blocks gi)
            \<and> GROUP_AT c gi i = Some (pg ! (nat i mod NGROUPS_PER_BLOCK c))"
proof -
  let ?p = "NGROUPS_PER_BLOCK c"
  from assms have p: "0 < ?p" and len: "int (length (blocks gi)) = nblocks gi"
    and pages: "list_all (is_page c) (blocks gi)"
    and cover: "ngroups gi \<le> nblocks gi * int ?p"
    by (auto simp: group_info_ok_def limits_ok_def)
  have "int (nat i) < nblocks gi * int ?p" using assms(3,4) cover by simp
  then have "nat i div ?p < nat (nblocks gi)" using p by (rule block_index_lt[rotated])
  then have b: "nat i div ?p < length (blocks gi)" using len by simp
  then have "is_page c (blocks gi ! (nat i div ?p))" using pages by (simp add: list_all_length)
  then obtain pg where pg: "blocks gi ! (nat i div ?p) = Page pg" "length pg = ?p"
    by (auto simp: is_page_def split: block.splits)
  then show ?thesis using b p assms(3)
    by (auto simp: GROUP_AT_def cell_def Let_def)
qed

lemma GROUP_AT_some:
  assumes "group_info_ok c gi" "0 \<le> i" "i < ngroups gi"
  shows "\<exists>g. GROUP_AT c gi i = Some g"
  using GROUP_AT_small[OF assms(1) _ assms(2,3)] GROUP_AT_paged[OF assms(1) _ assms(2,3)]
  by (cases "ngroups gi \<le> int (NGROUPS_SMALL c)") auto

lemma GROUP_AT_gids:
  assumes "group_info_ok c gi" "0 \<le> i" "i < ngroups gi"
  shows "GROUP_AT c gi i = Some (gids c gi ! nat i)"
proof -
  obtain g where "GROUP_AT c gi i = Some g" using GROUP_AT_some[OF assms] by blast
  moreover have "nat i < nat (ngroups gi)" using assms by simp
  ultimately show ?thesis using assms(2) by (simp add: gids_def)
qed

lemma length_gids [simp]: "length (gids c gi) = nat (ngroups gi)"
  by (simp add: gids_def)

lemma divmod_inj:
  fixes a b p :: nat
  assumes "a div p = b div p" "a mod p = b mod p"
  shows "a = b"
  using assms by (metis div_mult_mod_eq)

lemma GROUP_AT_set_small:
  assumes ok: "group_info_ok c gi" and small: "ngroups gi \<le> int (NGROUPS_SMALL c)"
    and i: "0 \<le> i" "i < ngroups gi"
  shows "GROUP_AT_set c gi i v = Some (gi\<lparr>small_block := (small_block gi)[nat i := v]\<rparr>)"
  using assms
  by (auto simp: group_info_ok_def limits_ok_def GROUP_AT_set_def cell_set_def Let_def)

lemma GROUP_AT_set_paged:
  assumes ok: "group_info_ok c gi" and big: "\<not> ngroups gi \<le> int (NGROUPS_SMALL c)"
    and i: "0 \<le> i" "i < ngroups gi"
  shows "\<exists>pg. blocks gi ! (nat i div NGROUPS_PER_BLOCK c) = Page pg \<and>
     GROUP_AT_set c gi i v = Some (gi\<lparr>blocks := (blocks gi)[nat i div NGROUPS_PER_BLOCK c :=
         Page (pg[nat i mod NGROUPS_PER_BLOCK c := v])]\<rparr>)"
proof -
  let ?p = "NGROUPS_PER_BLOCK c"
  obtain pg where pg: "blocks gi ! (nat i div ?p) = Page pg" "length pg = ?p"
    "nat i div ?p < length (blocks gi)"
    using GROUP_AT_paged[OF ok big i] by blast
  have p: "0 < ?p" using ok by (simp add: group_info_ok_def limits_ok_def)
  show ?thesis using pg p i
    by (auto simp: GROUP_AT_set_def cell_set_def Let_def)
qed

lemma list_all_update:
  "list_all P xs \<Longrightarrow> P x \<Longrightarrow> list_all P (xs[k := x])"
  by (induction xs arbitrary: k) (auto split: nat.splits)

lemma GROUP_AT_set_ok:
  assumes ok: "group_info_ok c gi" and i: "0 \<le> i" "i < ngroups gi"
  shows "\<exists>gi'. GROUP_AT_set c gi i v = Some gi' \<and> group_info_ok c gi'
           \<and> ngroups gi' = ngroups gi \<and> nblocks gi' = nblocks gi \<and> usage gi' = usage gi
           \<and> gids c gi' = (gids c gi)[nat i := v]"
proof (cases "ngroups gi \<le> int (NGROUPS_SMALL c)")
  case True
  let ?gi' = "gi\<lparr>small_block := (small_block gi)[nat i := v]\<rparr>"
  have set: "GROUP_AT_set c gi i v = Some ?gi'" by (rule GROUP_AT_set_small[OF ok True i])
  have ok': "group_info_ok c ?gi'" using ok True by (auto simp: group_info_ok_def)
  have small': "ngroups ?gi' \<le> int (NGROUPS_SMALL c)" using True by simp
  have "gids c ?gi' = (gids c gi)[nat i := v]"
  proof (rule nth_equalityI)
    show "length (gids c ?gi') = length ((gids c gi)[nat i := v])" by simp
  next
    fix j assume "j < length (gids c ?gi')"
    then have j: "0 \<le> int j" "int j < ngroups gi" and jn: "j < length (gids c gi)" by auto
    have jl: "j < length (small_block gi)" using ok True j by (simp add: group_info_ok_def)
    have a: "gids c ?gi' ! j = small_block ?gi' ! j"
      using GROUP_AT_gids[OF ok', of "int j"] GROUP_AT_small[OF ok' small', of "int j"] j by simp
    have b: "gids c gi ! j = small_block gi ! j"
      using GROUP_AT_gids[OF ok, of "int j"] GROUP_AT_small[OF ok True, of "int j"] j by simp
    show "gids c ?gi' ! j = (gids c gi)[nat i := v] ! j"
      using a b j jl jn i by (auto simp: nth_list_update)
  qed
  then show ?thesis using set ok' by simp
next
  case False
  let ?p = "NGROUPS_PER_BLOCK c"
  let ?b = "nat i div ?p" and ?o = "nat i mod ?p"
  obtain pg where pg: "blocks gi ! ?b = Page pg"
    and set: "GROUP_AT_set c gi i v = Some (gi\<lparr>blocks := (blocks gi)[?b := Page (pg[?o := v])]\<rparr>)"
    using GROUP_AT_set_paged[OF ok False i] by blast
  let ?gi' = "gi\<lparr>blocks := (blocks gi)[?b := Page (pg[?o := v])]\<rparr>"
  obtain pg0 where pg0: "blocks gi ! ?b = Page pg0" "length pg0 = ?p" "?b < length (blocks gi)"
    using GROUP_AT_paged[OF ok False i] by blast
  then have lpg: "length pg = ?p" and bl: "?b < length (blocks gi)" using pg by auto
  have "is_page c (Page (pg[?o := v]))" using lpg by (simp add: is_page_def)
  then have ok': "group_info_ok c ?gi'" using ok False
    by (simp add: group_info_ok_def list_all_update)
  have big': "\<not> ngroups ?gi' \<le> int (NGROUPS_SMALL c)" using False by simp
  have "gids c ?gi' = (gids c gi)[nat i := v]"
  proof (rule nth_equalityI)
    show "length (gids c ?gi') = length ((gids c gi)[nat i := v])" by simp
  next
    fix j assume "j < length (gids c ?gi')"
    then have j: "0 \<le> int j" "int j < ngroups gi" and jn: "j < length (gids c gi)" by auto
    then have j': "int j < ngroups ?gi'" by simp
    obtain q where q: "blocks gi ! (j div ?p) = Page q" "j div ?p < length (blocks gi)"
      "GROUP_AT c gi (int j) = Some (q ! (j mod ?p))" "length q = ?p"
      using GROUP_AT_paged[OF ok False j] by auto
    obtain q' where q': "blocks ?gi' ! (j div ?p) = Page q'"
      "GROUP_AT c ?gi' (int j) = Some (q' ! (j mod ?p))"
      using GROUP_AT_paged[OF ok' big' j(1) j'] by auto
    have p: "0 < ?p" using ok by (simp add: group_info_ok_def limits_ok_def)
    have a: "gids c ?gi' ! j = q' ! (j mod ?p)"
      using GROUP_AT_gids[OF ok' j(1) j'] q'(2) by simp
    have b: "gids c gi ! j = q ! (j mod ?p)"
      using GROUP_AT_gids[OF ok j] q(3) by simp
    show "gids c ?gi' ! j = (gids c gi)[nat i := v] ! j"
    proof (cases "j div ?p = ?b")
      case True
      then have "q' = pg[?o := v]" "q = pg" using q' q pg bl by auto
      moreover have "j mod ?p = ?o \<longleftrightarrow> j = nat i" using True divmod_inj by blast
      moreover have "j mod ?p < length pg" using lpg p by simp
      ultimately show ?thesis using a b j jn i by (auto simp: nth_list_update)
    next
      case False
      then have "q' = q" using q' q by auto
      moreover have "j \<noteq> nat i" using False by auto
      ultimately show ?thesis using a b j jn i by (auto simp: nth_list_update)
    qed
  qed
  then show ?thesis using set ok' by simp
qed

lemma groups_search_loop_correct:
  assumes ok: "group_info_ok c gi" and srt: "sorted (gids c gi)"
  shows "left \<le> right \<Longrightarrow> right \<le> nat (ngroups gi) \<Longrightarrow>
         groups_search_loop c gi grp left right =
           Some (if \<exists>k. left \<le> k \<and> k < right \<and> gids c gi ! k = grp then 1 else 0)"
proof (induction "right - left" arbitrary: left right rule: less_induct)
  case less
  let ?xs = "gids c gi"
  show ?case
  proof (cases "left < right")
    case False
    then show ?thesis by (subst groups_search_loop.simps) auto
  next
    case True
    have "ngroups gi \<le> 2147483647"
      using ok by (simp add: group_info_ok_def INT_MAX_def)
    then have nmax: "nat (ngroups gi) \<le> 2147483647" by linarith
    then have sum: "left + right < 4294967296" using less.prems by linarith
    define mid where "mid = (left + right) div 2"
    have mid: "left \<le> mid" "mid < right" using True by (auto simp: mid_def)
    then have midn: "0 \<le> int mid" "int mid < ngroups gi" using less.prems by auto
    have at: "GROUP_AT c gi (int mid) = Some (?xs ! mid)"
      using GROUP_AT_gids[OF ok midn] by simp
    have suc: "(mid + 1) mod 4294967296 = mid + 1" using mid sum by simp
    have midlen: "mid < length ?xs" using midn by simp
    have unfold: "groups_search_loop c gi grp left right =
       (if gid_gt grp (?xs ! mid) then groups_search_loop c gi grp (mid + 1) right
        else if gid_lt grp (?xs ! mid) then groups_search_loop c gi grp left mid
        else Some 1)"
      using True sum at suc
      by (subst groups_search_loop.simps) (simp add: Let_def mid_def)
    consider (gt) "?xs ! mid < grp" | (lt) "grp < ?xs ! mid" | (eq) "grp = ?xs ! mid"
      by (metis linorder_less_linear)
    then show ?thesis
    proof cases
      case gt
      have rec: "groups_search_loop c gi grp (mid + 1) right =
          Some (if \<exists>k. mid + 1 \<le> k \<and> k < right \<and> ?xs ! k = grp then 1 else 0)"
        using less.hyps[of right "mid + 1"] mid less.prems by simp
      have "\<And>k. left \<le> k \<Longrightarrow> k \<le> mid \<Longrightarrow> ?xs ! k \<noteq> grp"
      proof -
        fix k assume "left \<le> k" "k \<le> mid"
        then have "?xs ! k \<le> ?xs ! mid" using srt midlen by (simp add: sorted_nth_mono)
        then show "?xs ! k \<noteq> grp" using gt by auto
      qed
      then have "(\<exists>k. left \<le> k \<and> k < right \<and> ?xs ! k = grp)
         \<longleftrightarrow> (\<exists>k. mid + 1 \<le> k \<and> k < right \<and> ?xs ! k = grp)"
        using mid by (metis Suc_eq_plus1 Suc_leI le_trans linorder_not_less less_or_eq_imp_le not_less_eq_eq)
      then show ?thesis using unfold rec gt by (simp add: gid_gt_def kgid_val_def)
    next
      case lt
      have rec: "groups_search_loop c gi grp left mid =
          Some (if \<exists>k. left \<le> k \<and> k < mid \<and> ?xs ! k = grp then 1 else 0)"
        using less.hyps[of mid left] mid less.prems by simp
      have "\<And>k. mid \<le> k \<Longrightarrow> k < right \<Longrightarrow> ?xs ! k \<noteq> grp"
      proof -
        fix k assume "mid \<le> k" "k < right"
        then have "?xs ! mid \<le> ?xs ! k" using srt less.prems by (simp add: sorted_nth_mono)
        then show "?xs ! k \<noteq> grp" using lt by auto
      qed
      then have "(\<exists>k. left \<le> k \<and> k < right \<and> ?xs ! k = grp)
         \<longleftrightarrow> (\<exists>k. left \<le> k \<and> k < mid \<and> ?xs ! k = grp)"
        using mid by (metis less_trans linorder_not_less)
      moreover have "\<not> ?xs ! mid < grp" using lt by auto
      ultimately show ?thesis using unfold rec lt by (simp add: gid_gt_def gid_lt_def kgid_val_def)
    next
      case eq
      then have "\<exists>k. left \<le> k \<and> k < right \<and> ?xs ! k = grp" using mid by auto
      then show ?thesis using unfold eq by (simp add: gid_gt_def gid_lt_def kgid_val_def)
    qed
  qed
qed

lemma u32_ngroups:
  "group_info_ok c gi \<Longrightarrow> u32 (ngroups gi) = nat (ngroups gi)"
  by (simp add: group_info_ok_def u32_def INT_MAX_def)

lemma groups_search_sorted:
  assumes ok: "group_info_ok c gi" and srt: "sorted (gids c gi)"
  shows "groups_search c (Some gi) grp = Some (if grp \<in> set (gids c gi) then 1 else 0)"
proof -
  have "(\<exists>k. 0 \<le> k \<and> k < nat (ngroups gi) \<and> gids c gi ! k = grp) \<longleftrightarrow> grp \<in> set (gids c gi)"
    by (auto simp: in_set_conv_nth)
  then show ?thesis
    using groups_search_loop_correct[OF ok srt, of 0 "nat (ngroups gi)" grp] u32_ngroups[OF ok]
    by (simp add: groups_search_def)
qed

lemma is_subset_scan_correct:
  assumes ok: "group_info_ok c g2"
  shows "j \<le> nat (ngroups g2) \<Longrightarrow>
     \<exists>j' r. is_subset_scan c g2 gid1 j = Some (j', r) \<and> j \<le> j' \<and> j' \<le> nat (ngroups g2)
        \<and> (\<forall>k. j \<le> k \<and> k < j' \<longrightarrow> gids c g2 ! k < gid1)
        \<and> (j' < nat (ngroups g2) \<longrightarrow> gid1 \<le> gids c g2 ! j' \<and> r = Some (gids c g2 ! j'))"
proof (induction "nat (ngroups g2) - j" arbitrary: j rule: less_induct)
  case less
  let ?n = "nat (ngroups g2)" and ?ys = "gids c g2"
  have u: "u32 (ngroups g2) = ?n" by (rule u32_ngroups[OF ok])
  show ?case
  proof (cases "j < ?n")
    case False
    then have "is_subset_scan c g2 gid1 j = Some (j, None)"
      using u by (subst is_subset_scan.simps) simp
    then show ?thesis using False less.prems by auto
  next
    case True
    then have jn: "0 \<le> int j" "int j < ngroups g2" by auto
    have at: "GROUP_AT c g2 (int j) = Some (?ys ! j)"
      using GROUP_AT_gids[OF ok jn] by simp
    have "ngroups g2 \<le> 2147483647" using ok by (simp add: group_info_ok_def INT_MAX_def)
    then have suc: "(j + 1) mod 4294967296 = j + 1" using True by simp
    show ?thesis
    proof (cases "gid1 \<le> ?ys ! j")
      case le: True
      have "is_subset_scan c g2 gid1 j = Some (j, Some (?ys ! j))"
        using True u at le by (subst is_subset_scan.simps) (simp add: gid_lte_def kgid_val_def)
      then show ?thesis using le True by auto
    next
      case gt: False
      have step: "is_subset_scan c g2 gid1 j = is_subset_scan c g2 gid1 (j + 1)"
        using True u at gt suc by (subst is_subset_scan.simps) (simp add: gid_lte_def kgid_val_def)
      obtain j' r where rec: "is_subset_scan c g2 gid1 (j + 1) = Some (j', r)" "j + 1 \<le> j'"
        "j' \<le> ?n" "\<forall>k. j + 1 \<le> k \<and> k < j' \<longrightarrow> ?ys ! k < gid1"
        "j' < ?n \<longrightarrow> gid1 \<le> ?ys ! j' \<and> r = Some (?ys ! j')"
      proof -
        have "?n - (j + 1) < ?n - j" "j + 1 \<le> ?n" using True by auto
        from less.hyps[OF this] show ?thesis using that by blast
      qed
      have "\<forall>k. j \<le> k \<and> k < j' \<longrightarrow> ?ys ! k < gid1"
      proof (intro allI impI)
        fix k assume k: "j \<le> k \<and> k < j'"
        show "?ys ! k < gid1"
        proof (cases "k = j")
          case True then show ?thesis using gt by auto
        next
          case False then show ?thesis using k rec(4) by auto
        qed
      qed
      then show ?thesis using step rec by auto
    qed
  qed
qed

lemma in_set_drop_nth:
  "x \<in> set (drop n xs) \<longleftrightarrow> (\<exists>k. n \<le> k \<and> k < length xs \<and> xs ! k = x)"
proof
  assume "x \<in> set (drop n xs)"
  then obtain i where "i < length (drop n xs)" "drop n xs ! i = x"
    by (auto simp: in_set_conv_nth)
  then have "n \<le> n + i \<and> n + i < length xs \<and> xs ! (n + i) = x" by auto
  then show "\<exists>k. n \<le> k \<and> k < length xs \<and> xs ! k = x" by blast
next
  assume "\<exists>k. n \<le> k \<and> k < length xs \<and> xs ! k = x"
  then obtain k where k: "n \<le> k" "k < length xs" "xs ! k = x" by blast
  then have "k - n < length (drop n xs)" "drop n xs ! (k - n) = x" by auto
  then show "x \<in> set (drop n xs)" by (metis nth_mem)
qed

lemma mset_subset_skip:
  assumes "\<forall>a. a \<in># A \<longrightarrow> a \<notin># S"
  shows "A \<subseteq># S + B \<longleftrightarrow> A \<subseteq># B"
proof
  assume h: "A \<subseteq># S + B"
  show "A \<subseteq># B"
  proof (rule mset_subset_eqI)
    fix a
    show "count A a \<le> count B a"
    proof (cases "a \<in># A")
      case True
      then have "count S a = 0" using assms by (simp add: not_in_iff)
      moreover have "count A a \<le> count (S + B) a" using h by (rule mset_subset_eq_count)
      ultimately show ?thesis by simp
    next
      case False then show ?thesis by (simp add: not_in_iff)
    qed
  qed
next
  assume "A \<subseteq># B"
  then show "A \<subseteq># S + B" by (simp add: subset_mset.add_increasing)
qed

lemma is_subset_loop_correct:
  assumes ok1: "group_info_ok c g1" and ok2: "group_info_ok c g2"
    and s1: "sorted (gids c g1)" and s2: "sorted (gids c g2)"
  shows "i \<le> nat (ngroups g1) \<Longrightarrow> j \<le> nat (ngroups g2) \<Longrightarrow>
     is_subset_loop c g1 g2 i j = Some (mset (drop i (gids c g1)) \<subseteq># mset (drop j (gids c g2)))"
proof (induction "nat (ngroups g1) - i" arbitrary: i j rule: less_induct)
  case less
  let ?m = "nat (ngroups g1)" and ?n = "nat (ngroups g2)"
  let ?xs = "gids c g1" and ?ys = "gids c g2"
  have u1: "u32 (ngroups g1) = ?m" by (rule u32_ngroups[OF ok1])
  have u2: "u32 (ngroups g2) = ?n" by (rule u32_ngroups[OF ok2])
  show ?case
  proof (cases "i < ?m")
    case False
    then have "drop i ?xs = []" by simp
    moreover have "is_subset_loop c g1 g2 i j = Some True"
      using False u1 by (subst is_subset_loop.simps) simp
    ultimately show ?thesis by simp
  next
    case True
    then have ii: "0 \<le> int i" "int i < ngroups g1" by auto
    define g where "g = ?xs ! i"
    have at: "GROUP_AT c g1 (int i) = Some g"
      using GROUP_AT_gids[OF ok1 ii] by (simp add: g_def)
    obtain j' r where scan: "is_subset_scan c g2 g j = Some (j', r)" "j \<le> j'" "j' \<le> ?n"
        "\<forall>k. j \<le> k \<and> k < j' \<longrightarrow> ?ys ! k < g"
        "j' < ?n \<longrightarrow> g \<le> ?ys ! j' \<and> r = Some (?ys ! j')"
      using is_subset_scan_correct[OF ok2 less.prems(2), of g] by blast
    have dx: "drop i ?xs = g # drop (Suc i) ?xs"
      using True by (simp add: g_def Cons_nth_drop_Suc)
    have "ngroups g1 \<le> 2147483647" using ok1 by (simp add: group_info_ok_def INT_MAX_def)
    then have suci: "(i + 1) mod 4294967296 = i + 1" using True by simp
    have "ngroups g2 \<le> 2147483647" using ok2 by (simp add: group_info_ok_def INT_MAX_def)
    then have n2: "?n \<le> 2147483647" by linarith
    have missing: "g \<notin> set (drop j ?ys) \<Longrightarrow>
        \<not> mset (drop i ?xs) \<subseteq># mset (drop j ?ys)"
    proof
      assume a: "g \<notin> set (drop j ?ys)" and b: "mset (drop i ?xs) \<subseteq># mset (drop j ?ys)"
      have "g \<in># mset (drop i ?xs)" using dx by simp
      then have "g \<in># mset (drop j ?ys)" using b by (rule mset_subset_eqD[rotated])
      then show False using a by simp
    qed
    show ?thesis
    proof (cases "j' \<ge> ?n")
      case exhausted: True
      have res: "is_subset_loop c g1 g2 i j = Some False"
        using True u1 u2 at scan(1) exhausted by (subst is_subset_loop.simps) simp
      have "g \<notin> set (drop j ?ys)"
      proof
        assume "g \<in> set (drop j ?ys)"
        then obtain k where "j \<le> k" "k < length ?ys" "?ys ! k = g"
          by (auto simp: in_set_drop_nth)
        then show False using scan(4) exhausted by auto
      qed
      then show ?thesis using res missing by simp
    next
      case inside: False
      then have j'n: "j' < ?n" by simp
      then have ge: "g \<le> ?ys ! j'" and r: "r = Some (?ys ! j')" using scan(5) by auto
      have sucj: "(j' + 1) mod 4294967296 = j' + 1" using j'n n2 by simp
      show ?thesis
      proof (cases "g = ?ys ! j'")
        case neq: False
        have res: "is_subset_loop c g1 g2 i j = Some False"
          using True u1 u2 at scan(1) inside r neq
          by (subst is_subset_loop.simps) (simp add: gid_eq_def kgid_val_def)
        have "g \<notin> set (drop j ?ys)"
        proof
          assume "g \<in> set (drop j ?ys)"
          then obtain k where k: "j \<le> k" "k < length ?ys" "?ys ! k = g"
            by (auto simp: in_set_drop_nth)
          show False
          proof (cases "k < j'")
            case True then show ?thesis using scan(4) k by auto
          next
            case False
            then have "?ys ! j' \<le> ?ys ! k" using s2 k(2) by (simp add: sorted_nth_mono)
            then show ?thesis using k(3) ge neq by auto
          qed
        qed
        then show ?thesis using res missing by simp
      next
        case eq: True
        have res: "is_subset_loop c g1 g2 i j = is_subset_loop c g1 g2 (i + 1) (j' + 1)"
          using True u1 u2 at scan(1) inside r eq suci sucj
          by (subst is_subset_loop.simps) (simp add: gid_eq_def kgid_val_def)
        have rec: "is_subset_loop c g1 g2 (i + 1) (j' + 1) =
            Some (mset (drop (i + 1) ?xs) \<subseteq># mset (drop (j' + 1) ?ys))"
          using less.hyps[of "i + 1" "j' + 1"] True j'n by simp
        define S where "S = mset (take (j' - j) (drop j ?ys))"
        have "drop j ?ys = take (j' - j) (drop j ?ys) @ drop (j' - j) (drop j ?ys)"
          by (rule append_take_drop_id[symmetric])
        moreover have "drop (j' - j) (drop j ?ys) = drop j' ?ys" using scan(2) by simp
        moreover have "drop j' ?ys = g # drop (Suc j') ?ys"
          using j'n eq by (simp add: Cons_nth_drop_Suc)
        ultimately have dy: "mset (drop j ?ys) = S + ({#g#} + mset (drop (Suc j') ?ys))"
          by (metis S_def mset.simps(2) mset_append add_mset_add_single union_commute)
        have skip: "\<forall>a. a \<in># mset (drop (Suc i) ?xs) \<longrightarrow> a \<notin># S"
        proof (intro allI impI)
          fix a assume "a \<in># mset (drop (Suc i) ?xs)"
          then obtain k where k: "Suc i \<le> k" "k < length ?xs" "?xs ! k = a"
            by (auto simp: in_set_drop_nth)
          then have ga: "g \<le> a" using s1 by (auto simp: g_def sorted_nth_mono)
          show "a \<notin># S"
          proof
            assume "a \<in># S"
            then have "a \<in> set (take (j' - j) (drop j ?ys))" by (simp add: S_def)
            then obtain l where l: "l < j' - j" "l < length (drop j ?ys)" "drop j ?ys ! l = a"
              by (auto simp: in_set_conv_nth)
            then have "?ys ! (j + l) = a" by simp
            moreover have "?ys ! (j + l) < g" using scan(4) l(1) by auto
            ultimately show False using ga by auto
          qed
        qed
        have "mset (drop i ?xs) \<subseteq># mset (drop j ?ys) \<longleftrightarrow>
              {#g#} + mset (drop (Suc i) ?xs) \<subseteq># {#g#} + (S + mset (drop (Suc j') ?ys))"
          using dx dy by (simp add: ac_simps)
        also have "\<dots> \<longleftrightarrow> mset (drop (Suc i) ?xs) \<subseteq># S + mset (drop (Suc j') ?ys)"
          by simp
        also have "\<dots> \<longleftrightarrow> mset (drop (Suc i) ?xs) \<subseteq># mset (drop (Suc j') ?ys)"
          by (rule mset_subset_skip[OF skip])
        finally show ?thesis using res rec by simp
      qed
    qed
  qed
qed

lemma is_subset_mset:
  assumes "group_info_ok c g1" "group_info_ok c g2" "sorted (gids c g1)" "sorted (gids c g2)"
  shows "is_subset c g1 g2 = Some (mset (gids c g1) \<subseteq># mset (gids c g2))"
  using is_subset_loop_correct[OF assms, of 0 0] by (simp add: is_subset_def)

lemma distinct_mset_subset_iff:
  assumes "distinct xs"
  shows "mset xs \<subseteq># mset ys \<longleftrightarrow> set xs \<subseteq> set ys"
proof
  assume "mset xs \<subseteq># mset ys"
  then show "set xs \<subseteq> set ys" by (metis set_mset_mono set_mset_mset)
next
  assume h: "set xs \<subseteq> set ys"
  show "mset xs \<subseteq># mset ys"
  proof (rule mset_subset_eqI)
    fix a
    show "count (mset xs) a \<le> count (mset ys) a"
    proof (cases "a \<in> set xs")
      case True
      then have "count (mset xs) a = 1" using assms by (simp add: distinct_count_atmost_1)
      moreover have "a \<in># mset ys" using True h by auto
      then have "1 \<le> count (mset ys) a" by (metis count_greater_eq_one_iff)
      ultimately show ?thesis by simp
    next
      case False
      then have "count (mset xs) a = 0" by (metis not_in_iff set_mset_mset)
      then show ?thesis by linarith
    qed
  qed
qed

lemma GROUP_AT_set_same:
  assumes ok: "group_info_ok c gi" and i: "0 \<le> i" "i < ngroups gi"
    and v: "GROUP_AT c gi i = Some v"
  shows "GROUP_AT_set c gi i v = Some gi"
proof (cases "ngroups gi \<le> int (NGROUPS_SMALL c)")
  case True
  have "small_block gi ! nat i = v" using GROUP_AT_small[OF ok True i] v by simp
  then have "(small_block gi)[nat i := v] = small_block gi" by (metis list_update_id)
  then show ?thesis using GROUP_AT_set_small[OF ok True i, of v] by simp
next
  case False
  let ?b = "nat i div NGROUPS_PER_BLOCK c" and ?o = "nat i mod NGROUPS_PER_BLOCK c"
  obtain pg where pg: "blocks gi ! ?b = Page pg"
    "GROUP_AT_set c gi i v = Some (gi\<lparr>blocks := (blocks gi)[?b := Page (pg[?o := v])]\<rparr>)"
    using GROUP_AT_set_paged[OF ok False i] by blast
  obtain pg0 where pg0: "blocks gi ! ?b = Page pg0" "GROUP_AT c gi i = Some (pg0 ! ?o)"
    using GROUP_AT_paged[OF ok False i] by blast
  then have "pg ! ?o = v" using pg v by simp
  then have "pg[?o := v] = pg" by (metis list_update_id)
  then have "(blocks gi)[?b := Page (pg[?o := v])] = blocks gi"
    using pg(1) by (metis list_update_id)
  then show ?thesis using pg(2) by simp
qed

lemma sort_shift_general:
  assumes st: "1 \<le> stride"
  shows "group_info_ok c gi \<Longrightarrow> right = left + stride \<Longrightarrow> right < ngroups gi \<Longrightarrow> 0 \<le> right \<Longrightarrow>
     \<exists>gi' r. sort_shift c gi stride tmp left right = Some (gi', r) \<and> group_info_ok c gi'
        \<and> ngroups gi' = ngroups gi \<and> nblocks gi' = nblocks gi \<and> usage gi' = usage gi
        \<and> 0 \<le> r \<and> r \<le> right
        \<and> mset ((gids c gi')[nat r := tmp]) = mset ((gids c gi)[nat right := tmp])"
proof (induction "nat right" arbitrary: gi left right rule: less_induct)
  case less
  let ?xs = "gids c gi"
  note ok = less.prems(1)
  show ?case
  proof (cases "0 \<le> left")
    case False
    then have "sort_shift c gi stride tmp left right = Some (gi, right)"
      by (subst sort_shift.simps) simp
    then show ?thesis using less.prems by simp
  next
    case True
    have ln: "left < ngroups gi" using less.prems st by simp
    have at: "GROUP_AT c gi left = Some (?xs ! nat left)"
      by (rule GROUP_AT_gids[OF ok True ln])
    show ?thesis
    proof (cases "gid_gt (?xs ! nat left) tmp")
      case False
      then have "sort_shift c gi stride tmp left right = Some (gi, right)"
        using True at by (subst sort_shift.simps) simp
      then show ?thesis using less.prems by simp
    next
      case gt: True
      obtain gi1 where gi1: "GROUP_AT_set c gi right (?xs ! nat left) = Some gi1"
        "group_info_ok c gi1" "ngroups gi1 = ngroups gi" "nblocks gi1 = nblocks gi"
        "usage gi1 = usage gi" "gids c gi1 = ?xs[nat right := ?xs ! nat left]"
        using GROUP_AT_set_ok[OF ok less.prems(4,3), of "?xs ! nat left"] by blast
      have step: "sort_shift c gi stride tmp left right =
          sort_shift c gi1 stride tmp (left - stride) left"
        using True at gt gi1(1) by (subst sort_shift.simps) simp
      have m: "nat left < nat right" using True less.prems(2) st by simp
      have "\<exists>gi' r. sort_shift c gi1 stride tmp (left - stride) left = Some (gi', r)
          \<and> group_info_ok c gi'
          \<and> ngroups gi' = ngroups gi1 \<and> nblocks gi' = nblocks gi1 \<and> usage gi' = usage gi1
          \<and> 0 \<le> r \<and> r \<le> left
          \<and> mset ((gids c gi')[nat r := tmp]) = mset ((gids c gi1)[nat left := tmp])"
        using less.hyps[OF m gi1(2), of "left - stride"] ln gi1(3) True by simp
      then obtain gi' r where rec: "sort_shift c gi1 stride tmp (left - stride) left = Some (gi', r)"
        "group_info_ok c gi'" "ngroups gi' = ngroups gi1" "nblocks gi' = nblocks gi1"
        "usage gi' = usage gi1" "0 \<le> r" "r \<le> left"
        "mset ((gids c gi')[nat r := tmp]) = mset ((gids c gi1)[nat left := tmp])"
        by blast
      let ?ls = "?xs[nat right := tmp]"
      have lr: "nat left < length ?ls" "nat right < length ?ls"
        using True ln less.prems(3,4) by auto
      have "?ls[nat right := ?ls ! nat left, nat left := ?ls ! nat right]
            = ?xs[nat right := ?xs ! nat left, nat left := tmp]"
      proof -
        have ne: "nat left \<noteq> nat right" using m by linarith
        have "?ls ! nat left = ?xs ! nat left" using ne by simp
        moreover have "?ls ! nat right = tmp" using lr by simp
        ultimately show ?thesis by simp
      qed
      then have "mset (?xs[nat right := ?xs ! nat left, nat left := tmp]) = mset ?ls"
        using mset_swap[OF lr] by simp
      moreover have "r \<le> right" using rec(7) less.prems(2) st by simp
      ultimately show ?thesis using step rec gi1 less.prems by simp
    qed
  qed
qed

lemma sort_pass_general:
  assumes st: "1 \<le> stride"
  shows "group_info_ok c gi \<Longrightarrow> 0 \<le> base \<Longrightarrow> mx = ngroups gi - stride \<Longrightarrow>
     \<exists>gi'. sort_pass c gi stride mx base = Some gi' \<and> group_info_ok c gi'
        \<and> ngroups gi' = ngroups gi \<and> nblocks gi' = nblocks gi \<and> usage gi' = usage gi
        \<and> mset (gids c gi') = mset (gids c gi)"
proof (induction "nat (mx - base)" arbitrary: gi base rule: less_induct)
  case less
  let ?xs = "gids c gi"
  note ok = less.prems(1)
  show ?case
  proof (cases "base < mx")
    case False
    then have "sort_pass c gi stride mx base = Some gi"
      by (subst sort_pass.simps) simp
    then show ?thesis using ok by simp
  next
    case True
    define right where "right = base + stride"
    have r: "0 \<le> right" "right < ngroups gi" using True less.prems st by (auto simp: right_def)
    define tmp where "tmp = ?xs ! nat right"
    have at: "GROUP_AT c gi right = Some tmp"
      using GROUP_AT_gids[OF ok r] by (simp add: tmp_def)
    obtain gi1 r1 where sh: "sort_shift c gi stride tmp base right = Some (gi1, r1)"
      "group_info_ok c gi1" "ngroups gi1 = ngroups gi" "nblocks gi1 = nblocks gi"
      "usage gi1 = usage gi" "0 \<le> r1" "r1 \<le> right"
      "mset ((gids c gi1)[nat r1 := tmp]) = mset (?xs[nat right := tmp])"
      using sort_shift_general[OF st ok right_def r(2,1), of tmp] by blast
    have r1n: "r1 < ngroups gi1" using sh r by simp
    obtain gi2 where gi2: "GROUP_AT_set c gi1 r1 tmp = Some gi2"
      "group_info_ok c gi2" "ngroups gi2 = ngroups gi1" "nblocks gi2 = nblocks gi1"
      "usage gi2 = usage gi1" "gids c gi2 = (gids c gi1)[nat r1 := tmp]"
      using GROUP_AT_set_ok[OF sh(2,6) r1n, of tmp] by blast
    have "?xs[nat right := tmp] = ?xs" by (simp add: tmp_def list_update_id)
    then have ms: "mset (gids c gi2) = mset ?xs" using gi2(6) sh(8) by simp
    have step: "sort_pass c gi stride mx base = sort_pass c gi2 stride mx (base + 1)"
      using True at sh(1) gi2(1)
      by (subst sort_pass.simps) (simp add: Let_def right_def)
    have m: "nat (mx - (base + 1)) < nat (mx - base)" using True by simp
    have mx2: "mx = ngroups gi2 - stride" using less.prems(3) gi2(3) sh(3) by simp
    have b1: "0 \<le> base + 1" using less.prems(2) by simp
    obtain gi' where rec: "sort_pass c gi2 stride mx (base + 1) = Some gi'"
      "group_info_ok c gi'" "ngroups gi' = ngroups gi2" "nblocks gi' = nblocks gi2"
      "usage gi' = usage gi2" "mset (gids c gi') = mset (gids c gi2)"
      using less.hyps[OF m gi2(2) b1 mx2] by blast
    show ?thesis using step rec gi2 sh ms by simp
  qed
qed

lemma c_div_3: "0 \<le> s \<Longrightarrow> c_div s 3 = s div 3"
  by (cases "s = 0") (simp_all add: c_div_def sgn_if)

lemma sort_passes_general:
  shows "group_info_ok c gi \<Longrightarrow> 0 \<le> stride \<Longrightarrow> n = ngroups gi \<Longrightarrow>
     \<exists>gi'. sort_passes c gi n stride = Some gi' \<and> group_info_ok c gi'
        \<and> ngroups gi' = ngroups gi \<and> nblocks gi' = nblocks gi \<and> usage gi' = usage gi
        \<and> mset (gids c gi') = mset (gids c gi)"
proof (induction "nat stride" arbitrary: gi stride rule: less_induct)
  case less
  show ?case
  proof (cases "stride = 0")
    case True
    then have "sort_passes c gi n stride = Some gi" by (subst sort_passes.simps) simp
    then show ?thesis using less.prems by simp
  next
    case False
    then have st: "1 \<le> stride" using less.prems(2) by simp
    obtain gi1 where p: "sort_pass c gi stride (n - stride) 0 = Some gi1"
      "group_info_ok c gi1" "ngroups gi1 = ngroups gi" "nblocks gi1 = nblocks gi"
      "usage gi1 = usage gi" "mset (gids c gi1) = mset (gids c gi)"
      using sort_pass_general[OF st less.prems(1), of 0 "n - stride"] less.prems(3) by auto
    have step: "sort_passes c gi n stride = sort_passes c gi1 n (c_div stride 3)"
      using False p(1) by (subst sort_passes.simps) simp
    have d: "c_div stride 3 = stride div 3" using st by (simp add: c_div_3)
    have m: "nat (stride div 3) < nat stride" "0 \<le> stride div 3" using st by auto
    obtain gi' where rec: "sort_passes c gi1 n (stride div 3) = Some gi'"
      "group_info_ok c gi'" "ngroups gi' = ngroups gi1" "nblocks gi' = nblocks gi1"
      "usage gi' = usage gi1" "mset (gids c gi') = mset (gids c gi1)"
      using less.hyps[OF m(1) p(2) m(2)] less.prems(3) p(3) by auto
    show ?thesis using step d rec p by simp
  qed
qed

lemma hole_init: "prefix_sorted xs b \<Longrightarrow> hole_inv xs b b tmp"
  by (auto simp: prefix_sorted_def hole_inv_def)

lemma hole_step:
  assumes inv: "hole_inv xs r b tmp" and b: "b < length xs" and r: "0 < r"
    and gt: "tmp < xs ! (r - 1)"
  shows "hole_inv (xs[r := xs ! (r - 1)]) (r - 1) b tmp"
proof -
  let ?ys = "xs[r := xs ! (r - 1)]"
  have rb: "r \<le> b" using inv by (simp add: hole_inv_def)
  have ord: "\<And>i j. i \<le> j \<Longrightarrow> j \<le> b \<Longrightarrow> i \<noteq> r \<Longrightarrow> j \<noteq> r \<Longrightarrow> xs ! i \<le> xs ! j"
    using inv by (simp add: hole_inv_def)
  have above: "\<And>j. r < j \<Longrightarrow> j \<le> b \<Longrightarrow> tmp < xs ! j"
    using inv by (simp add: hole_inv_def)
  have rl: "r < length xs" using rb b by simp
  have a: "\<forall>i j. i \<le> j \<and> j \<le> b \<and> i \<noteq> r - 1 \<and> j \<noteq> r - 1 \<longrightarrow> ?ys ! i \<le> ?ys ! j"
  proof (intro allI impI)
    fix i j assume h: "i \<le> j \<and> j \<le> b \<and> i \<noteq> r - 1 \<and> j \<noteq> r - 1"
    show "?ys ! i \<le> ?ys ! j"
    proof (cases "i = r")
      case ir: True
      show ?thesis
      proof (cases "j = r")
        case True then show ?thesis using ir by simp
      next
        case False
        then have "xs ! (r - 1) \<le> xs ! j" using ord[of "r - 1" j] h ir r by auto
        then show ?thesis using ir False rl by simp
      qed
    next
      case inr: False
      show ?thesis
      proof (cases "j = r")
        case True
        then have "i < r - 1" using h inr by auto
        then have "xs ! i \<le> xs ! (r - 1)" using ord[of i "r - 1"] rb r by auto
        then show ?thesis using True inr rl by simp
      next
        case False
        then show ?thesis using ord[of i j] h inr by simp
      qed
    qed
  qed
  have c: "\<forall>j. r - 1 < j \<and> j \<le> b \<longrightarrow> tmp < ?ys ! j"
  proof (intro allI impI)
    fix j assume h: "r - 1 < j \<and> j \<le> b"
    show "tmp < ?ys ! j"
    proof (cases "j = r")
      case True then show ?thesis using gt rl by simp
    next
      case False then show ?thesis using above[of j] h by auto
    qed
  qed
  show ?thesis using a c rb by (simp add: hole_inv_def)
qed

lemma hole_done:
  assumes inv: "hole_inv xs r b tmp" and b: "b < length xs"
    and stop: "r = 0 \<or> xs ! (r - 1) \<le> tmp"
  shows "prefix_sorted (xs[r := tmp]) (Suc b)"
proof -
  let ?ys = "xs[r := tmp]"
  have rb: "r \<le> b" using inv by (simp add: hole_inv_def)
  have ord: "\<And>i j. i \<le> j \<Longrightarrow> j \<le> b \<Longrightarrow> i \<noteq> r \<Longrightarrow> j \<noteq> r \<Longrightarrow> xs ! i \<le> xs ! j"
    using inv by (simp add: hole_inv_def)
  have above: "\<And>j. r < j \<Longrightarrow> j \<le> b \<Longrightarrow> tmp < xs ! j"
    using inv by (simp add: hole_inv_def)
  have rl: "r < length xs" using rb b by simp
  have "\<forall>i j. i \<le> j \<and> j < Suc b \<longrightarrow> ?ys ! i \<le> ?ys ! j"
  proof (intro allI impI)
    fix i j assume h: "i \<le> j \<and> j < Suc b"
    show "?ys ! i \<le> ?ys ! j"
    proof (cases "i = r")
      case ir: True
      show ?thesis
      proof (cases "j = r")
        case True then show ?thesis using ir by simp
      next
        case False
        then have "tmp < xs ! j" using above[of j] h ir by auto
        then show ?thesis using ir False rl by simp
      qed
    next
      case inr: False
      show ?thesis
      proof (cases "j = r")
        case True
        then have ilt: "i < r" using h inr by auto
        then have "xs ! (r - 1) \<le> tmp" using stop by auto
        moreover have "xs ! i \<le> xs ! (r - 1)"
        proof (cases "i = r - 1")
          case True then show ?thesis by simp
        next
          case False then show ?thesis using ord[of i "r - 1"] ilt rb by auto
        qed
        ultimately show ?thesis using True inr rl by simp
      next
        case False
        then show ?thesis using ord[of i j] h inr by simp
      qed
    qed
  qed
  then show ?thesis by (simp add: prefix_sorted_def)
qed

lemma prefix_sorted_all:
  "prefix_sorted xs m \<Longrightarrow> length xs \<le> m \<Longrightarrow> sorted xs"
  by (auto simp: prefix_sorted_def sorted_iff_nth_mono)

lemma sort_shift_sorted:
  shows "sort_shift c gi 1 tmp left right = Some (gi', r) \<Longrightarrow> group_info_ok c gi \<Longrightarrow>
     right = left + 1 \<Longrightarrow> 0 \<le> right \<Longrightarrow> right < ngroups gi \<Longrightarrow> b < nat (ngroups gi) \<Longrightarrow>
     hole_inv (gids c gi) (nat right) b tmp \<Longrightarrow>
     prefix_sorted ((gids c gi')[nat r := tmp]) (Suc b)"
proof (induction "nat right" arbitrary: gi left right rule: less_induct)
  case less
  let ?xs = "gids c gi"
  note res = less.prems(1) and ok = less.prems(2) and inv = less.prems(7)
  have bl: "b < length ?xs" using less.prems(6) by simp
  show ?case
  proof (cases "0 \<le> left")
    case False
    then have "sort_shift c gi 1 tmp left right = Some (gi, right)"
      by (subst sort_shift.simps) simp
    then have e: "gi' = gi" "r = right" using res by auto
    have "nat right = 0" using False less.prems(3) by simp
    then show ?thesis using hole_done[OF inv bl] e by simp
  next
    case True
    have ln: "left < ngroups gi" using less.prems by simp
    have at: "GROUP_AT c gi left = Some (?xs ! nat left)"
      by (rule GROUP_AT_gids[OF ok True ln])
    have nl: "nat left = nat right - 1" using True less.prems(3) by simp
    show ?thesis
    proof (cases "gid_gt (?xs ! nat left) tmp")
      case False
      then have "sort_shift c gi 1 tmp left right = Some (gi, right)"
        using True at by (subst sort_shift.simps) simp
      then have e: "gi' = gi" "r = right" using res by auto
      have "?xs ! (nat right - 1) \<le> tmp"
        using False nl by (simp add: gid_gt_def kgid_val_def)
      then show ?thesis using hole_done[OF inv bl] e by simp
    next
      case gt: True
      obtain gi1 where gi1: "GROUP_AT_set c gi right (?xs ! nat left) = Some gi1"
        "group_info_ok c gi1" "ngroups gi1 = ngroups gi"
        "gids c gi1 = ?xs[nat right := ?xs ! nat left]"
        using GROUP_AT_set_ok[OF ok less.prems(4,5), of "?xs ! nat left"] by blast
      have step: "sort_shift c gi 1 tmp left right = sort_shift c gi1 1 tmp (left - 1) left"
        using True at gt gi1(1) by (subst sort_shift.simps) simp
      have m: "nat left < nat right" using True less.prems(3) by simp
      have r0: "0 < nat right" using m by simp
      have "tmp < ?xs ! (nat right - 1)" using gt nl by (simp add: gid_gt_def kgid_val_def)
      then have "hole_inv (?xs[nat right := ?xs ! (nat right - 1)]) (nat right - 1) b tmp"
        using hole_step[OF inv bl r0] by simp
      then have inv1: "hole_inv (gids c gi1) (nat left) b tmp" using gi1(4) nl by simp
      have res1: "sort_shift c gi1 1 tmp (left - 1) left = Some (gi', r)" using res step by simp
      show ?thesis
        using less.hyps[OF m res1 gi1(2) _ True _ _ inv1] ln gi1(3) less.prems(6) by simp
    qed
  qed
qed

lemma sort_pass_sorted:
  shows "sort_pass c gi 1 mx base = Some gi' \<Longrightarrow> group_info_ok c gi \<Longrightarrow> 0 \<le> base \<Longrightarrow>
     mx = ngroups gi - 1 \<Longrightarrow> prefix_sorted (gids c gi) (nat base + 1) \<Longrightarrow>
     sorted (gids c gi')"
proof (induction "nat (mx - base)" arbitrary: gi base rule: less_induct)
  case less
  let ?xs = "gids c gi"
  note res = less.prems(1) and ok = less.prems(2)
  show ?case
  proof (cases "base < mx")
    case False
    then have "sort_pass c gi 1 mx base = Some gi" by (subst sort_pass.simps) simp
    then have "gi' = gi" using res by simp
    moreover have "length ?xs \<le> nat base + 1" using False less.prems(3,4) by simp
    ultimately show ?thesis using prefix_sorted_all[OF less.prems(5)] by simp
  next
    case True
    define right where "right = base + 1"
    have r: "0 \<le> right" "right < ngroups gi" using True less.prems by (auto simp: right_def)
    define tmp where "tmp = ?xs ! nat right"
    have at: "GROUP_AT c gi right = Some tmp"
      using GROUP_AT_gids[OF ok r] by (simp add: tmp_def)
    have one: "(1::int) \<le> 1" by simp
    obtain gi1 r1 where sh: "sort_shift c gi 1 tmp base right = Some (gi1, r1)"
      "group_info_ok c gi1" "ngroups gi1 = ngroups gi" "0 \<le> r1" "r1 \<le> right"
      using sort_shift_general[OF one ok right_def r(2,1), of tmp] by blast
    have r1n: "r1 < ngroups gi1" using sh r by simp
    obtain gi2 where gi2: "GROUP_AT_set c gi1 r1 tmp = Some gi2"
      "group_info_ok c gi2" "ngroups gi2 = ngroups gi1"
      "gids c gi2 = (gids c gi1)[nat r1 := tmp]"
      using GROUP_AT_set_ok[OF sh(2,4) r1n, of tmp] by blast
    have nr: "nat right = nat base + 1" using less.prems(3) by (simp add: right_def)
    have inv: "hole_inv ?xs (nat right) (nat right) tmp"
      using hole_init[OF less.prems(5)] nr by simp
    have bn: "nat right < nat (ngroups gi)" using r by simp
    have ps: "prefix_sorted (gids c gi2) (nat (base + 1) + 1)"
      using sort_shift_sorted[OF sh(1) ok right_def r(1,2) bn inv] gi2(4) nr
      by (simp add: right_def)
    have step: "sort_pass c gi 1 mx base = sort_pass c gi2 1 mx (base + 1)"
      using True at sh(1) gi2(1)
      by (subst sort_pass.simps) (simp add: Let_def right_def)
    have m: "nat (mx - (base + 1)) < nat (mx - base)" using True by simp
    have mx2: "mx = ngroups gi2 - 1" using less.prems(4) gi2(3) sh(3) by simp
    have b1: "0 \<le> base + 1" using less.prems(3) by simp
    have res2: "sort_pass c gi2 1 mx (base + 1) = Some gi'" using res step by simp
    show ?thesis by (rule less.hyps[OF m res2 gi2(2) b1 mx2 ps])
  qed
qed

lemma stride_seq_pos: "stride_seq s \<Longrightarrow> 1 \<le> s"
  by (induction rule: stride_seq.induct) auto

lemma stride_seq_values:
  "stride_seq s \<Longrightarrow>
     s \<in> {1, 4, 13, 40, 121, 364, 1093, 3280, 9841, 29524, 88573, 265720, 797161, 2391484,
           7174453, 21523360, 64570081, 193710244, 581130733} \<or> 1743392200 \<le> s"
  by (induction rule: stride_seq.induct) auto

lemma stride_seq_fits:
  assumes "stride_seq s" "s < n" "n \<le> 1743392200"
  shows "int_fits (3 * s + 1)"
proof -
  have "s \<le> 581130733" using stride_seq_values[OF assms(1)] assms(2,3) by auto
  moreover have "1 \<le> s" by (rule stride_seq_pos[OF assms(1)])
  ultimately show ?thesis by (simp add: int_fits_def INT_MAX_def)
qed

lemma sort_stride_result:
  shows "stride_seq s \<Longrightarrow> n \<le> 1743392200 \<Longrightarrow>
     \<exists>s'. sort_stride n s = Some s' \<and> stride_seq s' \<and> n \<le> s'"
proof (induction "nat (n - s)" arbitrary: s rule: less_induct)
  case less
  have pos: "1 \<le> s" by (rule stride_seq_pos[OF less.prems(1)])
  show ?case
  proof (cases "s < n")
    case False
    then have "sort_stride n s = Some s" by (subst sort_stride.simps) simp
    then show ?thesis using False less.prems by auto
  next
    case True
    have fits: "int_fits (3 * s + 1)" by (rule stride_seq_fits[OF less.prems(1) True less.prems(2)])
    have step: "sort_stride n s = sort_stride n (3 * s + 1)"
      using True fits by (subst sort_stride.simps) simp
    have m: "nat (n - (3 * s + 1)) < nat (n - s)" using True pos by simp
    show ?thesis
      using less.hyps[OF m stride_seq_next[OF less.prems(1)] less.prems(2)] step by simp
  qed
qed

lemma sort_passes_sorted:
  shows "stride_seq t \<Longrightarrow> group_info_ok c gi \<Longrightarrow> n = ngroups gi \<Longrightarrow>
     sort_passes c gi n t = Some gi' \<Longrightarrow> sorted (gids c gi')"
proof (induction arbitrary: gi rule: stride_seq.induct)
  case stride_seq_1
  have one: "(1::int) \<le> 1" by simp
  obtain gi1 where p: "sort_pass c gi 1 (n - 1) 0 = Some gi1"
    using sort_pass_general[OF one stride_seq_1(1), of 0 "n - 1"] stride_seq_1(2) by auto
  have z: "c_div 1 3 = 0" by (simp add: c_div_def)
  have "sort_passes c gi n 1 = sort_passes c gi1 n 0"
    using p z by (subst sort_passes.simps) simp
  also have "\<dots> = Some gi1" by (subst sort_passes.simps) simp
  finally have e: "gi' = gi1" using stride_seq_1(3) by simp
  have ps: "prefix_sorted (gids c gi) (nat 0 + 1)" by (simp add: prefix_sorted_def)
  show ?case
    using sort_pass_sorted[OF p stride_seq_1(1) _ _ ps] stride_seq_1(2) e by simp
next
  case (stride_seq_next s)
  have pos: "1 \<le> s" by (rule stride_seq_pos[OF stride_seq_next(1)])
  then have st: "1 \<le> 3 * s + 1" by simp
  obtain gi1 where p: "sort_pass c gi (3 * s + 1) (n - (3 * s + 1)) 0 = Some gi1"
    "group_info_ok c gi1" "ngroups gi1 = ngroups gi"
    using sort_pass_general[OF st stride_seq_next(3), of 0 "n - (3 * s + 1)"] stride_seq_next(4)
    by auto
  have d: "c_div (3 * s + 1) 3 = s" using pos by (simp add: c_div_3)
  have "sort_passes c gi n (3 * s + 1) = sort_passes c gi1 n s"
    using p(1) d pos by (subst sort_passes.simps) simp
  then have "sort_passes c gi1 n s = Some gi'" using stride_seq_next(5) by simp
  then show ?case using stride_seq_next(2)[OF p(2)] p(3) stride_seq_next(4) by simp
qed

lemma sort_pass_sorted_id:
  assumes st: "1 \<le> stride" and ok: "group_info_ok c gi" and srt: "sorted (gids c gi)"
    and mx: "mx = ngroups gi - stride"
  shows "0 \<le> base \<Longrightarrow> sort_pass c gi stride mx base = Some gi"
proof (induction "nat (mx - base)" arbitrary: base rule: less_induct)
  case less
  let ?xs = "gids c gi"
  show ?case
  proof (cases "base < mx")
    case False
    then show ?thesis by (subst sort_pass.simps) simp
  next
    case True
    define right where "right = base + stride"
    have r: "0 \<le> right" "right < ngroups gi" using True less.prems st mx by (auto simp: right_def)
    have bn: "base < ngroups gi" using r st by (simp add: right_def)
    have at: "GROUP_AT c gi right = Some (?xs ! nat right)" by (rule GROUP_AT_gids[OF ok r])
    have atl: "GROUP_AT c gi base = Some (?xs ! nat base)"
      by (rule GROUP_AT_gids[OF ok less.prems bn])
    have "nat base \<le> nat right" "nat right < length ?xs" using r st less.prems by (auto simp: right_def)
    then have "?xs ! nat base \<le> ?xs ! nat right" using srt by (simp add: sorted_nth_mono)
    then have ngt: "\<not> gid_gt (?xs ! nat base) (?xs ! nat right)"
      by (simp add: gid_gt_def kgid_val_def)
    have sh: "sort_shift c gi stride (?xs ! nat right) base right = Some (gi, right)"
      using less.prems atl ngt by (subst sort_shift.simps) simp
    have same: "GROUP_AT_set c gi right (?xs ! nat right) = Some gi"
      by (rule GROUP_AT_set_same[OF ok r at])
    have step: "sort_pass c gi stride mx base = sort_pass c gi stride mx (base + 1)"
      using True at sh same by (subst sort_pass.simps) (simp add: Let_def right_def)
    have m: "nat (mx - (base + 1)) < nat (mx - base)" using True by simp
    show ?thesis using less.hyps[OF m] less.prems step by simp
  qed
qed

lemma sort_passes_sorted_id:
  assumes ok: "group_info_ok c gi" and srt: "sorted (gids c gi)"
  shows "0 \<le> stride \<Longrightarrow> sort_passes c gi (ngroups gi) stride = Some gi"
proof (induction "nat stride" arbitrary: stride rule: less_induct)
  case less
  show ?case
  proof (cases "stride = 0")
    case True
    then show ?thesis by (subst sort_passes.simps) simp
  next
    case False
    then have st: "1 \<le> stride" using less.prems by simp
    have p: "sort_pass c gi stride (ngroups gi - stride) 0 = Some gi"
      using sort_pass_sorted_id[OF st ok srt refl, of 0] by simp
    have d: "c_div stride 3 = stride div 3" using st by (simp add: c_div_3)
    have step: "sort_passes c gi (ngroups gi) stride = sort_passes c gi (ngroups gi) (stride div 3)"
      using False p d by (subst sort_passes.simps) simp
    have m: "nat (stride div 3) < nat stride" "0 \<le> stride div 3" using st by auto
    show ?thesis using less.hyps[OF m] step by simp
  qed
qed

lemma groups_sort_sorted_id:
  assumes ok: "group_info_ok c gi" and srt: "sorted (gids c gi)"
    and n: "ngroups gi \<le> 1743392200"
  shows "groups_sort c gi = Some gi"
proof -
  obtain s where s: "sort_stride (ngroups gi) 1 = Some s" "stride_seq s"
    using sort_stride_result[OF stride_seq_1 n] by blast
  have "0 \<le> c_div s 3" using stride_seq_pos[OF s(2)] by (simp add: c_div_3)
  then show ?thesis
    using s(1) sort_passes_sorted_id[OF ok srt] by (simp add: groups_sort_def)
qed

lemma groups_sort_result:
  assumes ok: "group_info_ok c gi" and n: "ngroups gi \<le> 1743392200"
  shows "\<exists>gi'. groups_sort c gi = Some gi' \<and> group_info_ok c gi'
        \<and> ngroups gi' = ngroups gi \<and> nblocks gi' = nblocks gi \<and> usage gi' = usage gi
        \<and> mset (gids c gi') = mset (gids c gi) \<and> sorted (gids c gi')"
proof -
  obtain s where s: "sort_stride (ngroups gi) 1 = Some s" "stride_seq s" "ngroups gi \<le> s"
    using sort_stride_result[OF stride_seq_1 n] by blast
  have pos: "1 \<le> s" by (rule stride_seq_pos[OF s(2)])
  then have d: "c_div s 3 = s div 3" "0 \<le> s div 3" by (simp_all add: c_div_3)
  obtain gi' where g: "sort_passes c gi (ngroups gi) (s div 3) = Some gi'" "group_info_ok c gi'"
    "ngroups gi' = ngroups gi" "nblocks gi' = nblocks gi" "usage gi' = usage gi"
    "mset (gids c gi') = mset (gids c gi)"
    using sort_passes_general[OF ok d(2) refl] by blast
  have run: "groups_sort c gi = Some gi'" using s(1) d(1) g(1) by (simp add: groups_sort_def)
  have "sorted (gids c gi')"
  proof (cases "s = 1")
    case True
    then have "sort_passes c gi (ngroups gi) (s div 3) = Some gi"
      by (subst sort_passes.simps) simp
    then have "gi' = gi" using g(1) by simp
    moreover have "length (gids c gi) \<le> 1" using s(3) True by simp
    ultimately show ?thesis by (cases "gids c gi") (auto simp: length_Suc_conv)
  next
    case False
    from s(2) False obtain t where t: "s = 3 * t + 1" "stride_seq t"
      by (cases rule: stride_seq.cases) auto
    have "1 \<le> t" by (rule stride_seq_pos[OF t(2)])
    then have "s div 3 = t" using t(1) by simp
    then show ?thesis using sort_passes_sorted[OF t(2) ok refl] g(1) by simp
  qed
  then show ?thesis using run g by simp
qed

lemma small_set_ok: "length xs \<le> 32 \<Longrightarrow> group_info_ok ex_limits (small_set xs)"
  by (simp add: group_info_ok_def limits_ok_def ex_limits_def small_set_def INT_MAX_def)

lemma gids_small_set:
  assumes "length xs \<le> 32"
  shows "gids ex_limits (small_set xs) = xs"
proof (rule nth_equalityI)
  show "length (gids ex_limits (small_set xs)) = length xs" by (simp add: small_set_def)
next
  fix i assume "i < length (gids ex_limits (small_set xs))"
  then have i: "0 \<le> int i" "int i < ngroups (small_set xs)" by (auto simp: small_set_def)
  have sm: "ngroups (small_set xs) \<le> int (NGROUPS_SMALL ex_limits)"
    using assms by (simp add: small_set_def ex_limits_def)
  have "gids ex_limits (small_set xs) ! i = small_block (small_set xs) ! i"
    using GROUP_AT_gids[OF small_set_ok[OF assms] i] GROUP_AT_small[OF small_set_ok[OF assms] sm i]
    by simp
  also have "\<dots> = xs ! i" using i by (simp add: small_set_def nth_append)
  finally show "gids ex_limits (small_set xs) ! i = xs ! i" .
qed

lemma take_Suc_update:
  "n < length xs \<Longrightarrow> take (Suc n) (xs[n := b]) = take n xs @ [b]"
  by (simp add: take_Suc_conv_app_nth)

lemma alloc_ok_take:
  "alloc_ok s \<Longrightarrow>
     list_all id (take (Suc n) (alloc_plan s)) = list_all id (take n (tl (alloc_plan s)))"
  by (cases "alloc_plan s") (auto simp: alloc_ok_def)

lemma alloc_fail_take:
  "\<not> alloc_ok s \<Longrightarrow> \<not> list_all id (take (Suc n) (alloc_plan s))"
  by (cases "alloc_plan s") (auto simp: alloc_ok_def)

lemma groups_alloc_pages_result:
  assumes p: "0 < NGROUPS_PER_BLOCK c"
  shows "0 \<le> i \<Longrightarrow> i \<le> nblocks gi \<Longrightarrow> int (length (blocks gi)) = nblocks gi \<Longrightarrow>
     list_all (is_page c) (take (nat i) (blocks gi)) \<Longrightarrow>
     \<exists>ok bs j m. groups_alloc_pages c gi i s =
          Some (ok, gi\<lparr>blocks := bs\<rparr>, j,
                s\<lparr>pages := pages s + (j - i), alloc_plan := drop m (alloc_plan s)\<rparr>)
        \<and> i \<le> j \<and> j \<le> nblocks gi \<and> (ok \<longrightarrow> j = nblocks gi)
        \<and> ok = list_all id (take (nat (nblocks gi - i)) (alloc_plan s))
        \<and> int (length bs) = nblocks gi \<and> list_all (is_page c) (take (nat j) bs)
        \<and> (ok \<longrightarrow> m = nat (nblocks gi - i))"
proof (induction "nat (nblocks gi - i)" arbitrary: gi i s rule: less_induct)
  case less
  show ?case
  proof (cases "i < nblocks gi")
    case False
    then have e: "i = nblocks gi" using less.prems by simp
    have "groups_alloc_pages c gi i s = Some (True, gi, i, s)"
      using False by (subst groups_alloc_pages.simps) simp
    moreover have "gi = gi\<lparr>blocks := blocks gi\<rparr>" by simp
    moreover have "s = s\<lparr>pages := pages s + (i - i), alloc_plan := drop 0 (alloc_plan s)\<rparr>" by simp
    ultimately have "groups_alloc_pages c gi i s =
        Some (True, gi\<lparr>blocks := blocks gi\<rparr>, i,
              s\<lparr>pages := pages s + (i - i), alloc_plan := drop 0 (alloc_plan s)\<rparr>)"
      by metis
    then show ?thesis using e less.prems by (intro exI[of _ True] exI[of _ "blocks gi"] exI[of _ i] exI[of _ 0]) simp
  next
    case True
    obtain n where n: "nat (nblocks gi - i) = Suc n" using True by (metis Suc_pred' zero_less_nat_eq diff_gt_0_iff_gt)
    show ?thesis
    proof (cases "alloc_ok s")
      case False
      have "groups_alloc_pages c gi i s = Some (False, gi, i, alloc_next s)"
        using True False by (subst groups_alloc_pages.simps) (simp add: get_free_page_def)
      moreover have "alloc_next s = s\<lparr>pages := pages s + (i - i), alloc_plan := drop 1 (alloc_plan s)\<rparr>"
        by (simp add: alloc_next_def drop_Suc)
      ultimately have "groups_alloc_pages c gi i s =
          Some (False, gi\<lparr>blocks := blocks gi\<rparr>, i,
                s\<lparr>pages := pages s + (i - i), alloc_plan := drop 1 (alloc_plan s)\<rparr>)"
        by simp
      moreover have "\<not> list_all id (take (nat (nblocks gi - i)) (alloc_plan s))"
        using alloc_fail_take[OF False] n by simp
      ultimately show ?thesis using less.prems True
        by (intro exI[of _ False] exI[of _ "blocks gi"] exI[of _ i] exI[of _ 1]) simp
    next
      case ok: True
      define b where "b = Page (map (stale s) [0..<NGROUPS_PER_BLOCK c])"
      define s1 where "s1 = (alloc_next s)\<lparr>pages := pages s + 1\<rparr>"
      define gi1 where "gi1 = gi\<lparr>blocks := (blocks gi)[nat i := b]\<rparr>"
      have il: "nat i < length (blocks gi)" using True less.prems by linarith
      have step: "groups_alloc_pages c gi i s = groups_alloc_pages c gi1 (i + 1) s1"
        using True ok il less.prems(1)
        by (subst groups_alloc_pages.simps) (simp add: get_free_page_def b_def s1_def gi1_def)
      have pb: "is_page c b" by (simp add: is_page_def b_def)
      have "take (nat (i + 1)) (blocks gi1) = take (nat i) (blocks gi) @ [b]"
        using il less.prems(1) take_Suc_update[OF il, of b] by (simp add: gi1_def nat_add_distrib)
      then have pre: "list_all (is_page c) (take (nat (i + 1)) (blocks gi1))"
        using less.prems(4) pb by simp
      have m: "nat (nblocks gi1 - (i + 1)) < nat (nblocks gi - i)" using True by (simp add: gi1_def)
      have l1: "int (length (blocks gi1)) = nblocks gi1" using less.prems(3) by (simp add: gi1_def)
      obtain ok' bs j m' where rec: "groups_alloc_pages c gi1 (i + 1) s1 =
          Some (ok', gi1\<lparr>blocks := bs\<rparr>, j,
                s1\<lparr>pages := pages s1 + (j - (i + 1)), alloc_plan := drop m' (alloc_plan s1)\<rparr>)"
        "i + 1 \<le> j" "j \<le> nblocks gi1" "ok' \<longrightarrow> j = nblocks gi1"
        "ok' = list_all id (take (nat (nblocks gi1 - (i + 1))) (alloc_plan s1))"
        "int (length bs) = nblocks gi1" "list_all (is_page c) (take (nat j) bs)"
        "ok' \<longrightarrow> m' = nat (nblocks gi1 - (i + 1))"
        using less.hyps[OF m _ _ l1 pre, of s1] less.prems(1) True by (auto simp: gi1_def)
      have e1: "gi1\<lparr>blocks := bs\<rparr> = gi\<lparr>blocks := bs\<rparr>" by (simp add: gi1_def)
      have e2: "s1\<lparr>pages := pages s1 + (j - (i + 1)), alloc_plan := drop m' (alloc_plan s1)\<rparr>
          = s\<lparr>pages := pages s + (j - i), alloc_plan := drop (Suc m') (alloc_plan s)\<rparr>"
        by (simp add: s1_def alloc_next_def drop_Suc)
      have "nat (nblocks gi1 - (i + 1)) = n" using n by (simp add: gi1_def)
      then have e3: "ok' = list_all id (take (nat (nblocks gi - i)) (alloc_plan s))"
        using rec(5) alloc_ok_take[OF ok, of n] n by (simp add: s1_def alloc_next_def)
      have "groups_alloc_pages c gi i s =
          Some (ok', gi\<lparr>blocks := bs\<rparr>, j,
                s\<lparr>pages := pages s + (j - i), alloc_plan := drop (Suc m') (alloc_plan s)\<rparr>)"
        using step rec(1) e1 e2 by simp
      moreover have "ok' \<longrightarrow> Suc m' = nat (nblocks gi - i)"
        using rec(8) True by (auto simp: gi1_def)
      ultimately show ?thesis using rec(2,3,4,6,7) e3
        by (intro exI[of _ ok'] exI[of _ bs] exI[of _ j] exI[of _ "Suc m'"]) (simp add: gi1_def)
    qed
  qed
qed

lemma block_at_page:
  assumes "list_all (is_page c) (take (nat j) (blocks gi))" "0 \<le> i" "i < j" "nat j \<le> length (blocks gi)"
  shows "\<exists>pg. block_at gi i = Some (Page pg)"
proof -
  have il: "nat i < nat j" using assms(2,3) by simp
  then have "nat i < length (take (nat j) (blocks gi))" using assms(4) by simp
  then have "is_page c (take (nat j) (blocks gi) ! nat i)" using assms(1) by (simp add: list_all_length)
  then have "is_page c (blocks gi ! nat i)" using il by simp
  then obtain pg where "blocks gi ! nat i = Page pg" by (auto simp: is_page_def split: block.splits)
  moreover have "nat i < length (blocks gi)" using il assms(4) by linarith
  ultimately show ?thesis using assms(2) by (simp add: block_at_def)
qed

lemma groups_alloc_undo_result:
  shows "0 \<le> j \<Longrightarrow> nat j \<le> length (blocks gi) \<Longrightarrow>
     list_all (is_page c) (take (nat j) (blocks gi)) \<Longrightarrow>
     groups_alloc_undo gi j s = Some (s\<lparr>pages := pages s - j\<rparr>)"
proof (induction "nat j" arbitrary: j s rule: less_induct)
  case less
  show ?case
  proof (cases "j - 1 \<ge> 0")
    case False
    then have "j = 0" using less.prems(1) by simp
    then show ?thesis by (subst groups_alloc_undo.simps) simp
  next
    case True
    obtain pg where pg: "block_at gi (j - 1) = Some (Page pg)"
      using block_at_page[OF less.prems(3) True _ less.prems(2)] by auto
    have step: "groups_alloc_undo gi j s = groups_alloc_undo gi (j - 1) (s\<lparr>pages := pages s - 1\<rparr>)"
      using True pg by (subst groups_alloc_undo.simps) (simp add: free_page_def)
    have m: "nat (j - 1) < nat j" using True by simp
    have "take (nat (j - 1)) (blocks gi) = take (nat (j - 1)) (take (nat j) (blocks gi))"
      using m by (simp add: min_def)
    then have pre: "list_all (is_page c) (take (nat (j - 1)) (blocks gi))"
      using less.prems(3) by (metis list_all_length length_take min_less_iff_conj nth_take)
    have l: "nat (j - 1) \<le> length (blocks gi)" using less.prems(2) m by simp
    show ?thesis using less.hyps[OF m True l pre] step by simp
  qed
qed

lemma groups_free_pages_result:
  assumes pg: "list_all (is_page c) (blocks gi)" and len: "int (length (blocks gi)) = nblocks gi"
  shows "0 \<le> i \<Longrightarrow> i \<le> nblocks gi \<Longrightarrow>
     groups_free_pages gi i s = Some (s\<lparr>pages := pages s - (nblocks gi - i)\<rparr>)"
proof (induction "nat (nblocks gi - i)" arbitrary: i s rule: less_induct)
  case less
  show ?case
  proof (cases "i < nblocks gi")
    case False
    then have "i = nblocks gi" using less.prems by simp
    then show ?thesis by (subst groups_free_pages.simps) simp
  next
    case True
    have nl: "nat (nblocks gi) \<le> length (blocks gi)" using len by linarith
    then have "list_all (is_page c) (take (nat (nblocks gi)) (blocks gi))" using pg len by simp
    then obtain b where b: "block_at gi i = Some (Page b)"
      using block_at_page[OF _ less.prems(1) True nl] by blast
    have step: "groups_free_pages gi i s = groups_free_pages gi (i + 1) (s\<lparr>pages := pages s - 1\<rparr>)"
      using True b by (subst groups_free_pages.simps) (simp add: free_page_def)
    have m: "nat (nblocks gi - (i + 1)) < nat (nblocks gi - i)" using True by simp
    show ?thesis using less.hyps[OF m] less.prems True step by simp
  qed
qed

lemma groups_free_result:
  assumes live: "kmem s p = Some gi" and ok: "group_info_ok c gi"
  shows "groups_free p s =
     Some (s\<lparr>kmem := (kmem s)(p := None), pages := pages s - held_pages c gi\<rparr>)"
proof (cases "ngroups gi \<le> int (NGROUPS_SMALL c)")
  case True
  then have "blocks gi = [Small_block]" using ok by (simp add: group_info_ok_def)
  then have "block_at gi 0 = Some Small_block" by (simp add: block_at_def)
  then show ?thesis using live True by (simp add: groups_free_def kfree_def held_pages_def)
next
  case False
  have pg: "list_all (is_page c) (blocks gi)" and len: "int (length (blocks gi)) = nblocks gi"
    and cover: "ngroups gi \<le> nblocks gi * int (NGROUPS_PER_BLOCK c)"
    using ok False by (auto simp: group_info_ok_def)
  have "0 < ngroups gi" using False by linarith
  then have "0 < nblocks gi * int (NGROUPS_PER_BLOCK c)" using cover by linarith
  then have nb: "0 < nblocks gi" by (simp add: zero_less_mult_iff)
  have nl: "nat (nblocks gi) \<le> length (blocks gi)" using len by linarith
  then have "list_all (is_page c) (take (nat (nblocks gi)) (blocks gi))" using pg len by simp
  then obtain b where b: "block_at gi 0 = Some (Page b)"
    using block_at_page[OF _ _ nb nl] by blast
  have fp: "groups_free_pages gi 0 s = Some (s\<lparr>pages := pages s - (nblocks gi - 0)\<rparr>)"
    using groups_free_pages_result[OF pg len, of 0 s] nb by simp
  show ?thesis using live False b fp
    by (simp add: groups_free_def kfree_def held_pages_def)
qed

lemma group_info_ok_usage: "group_info_ok c (gi\<lparr>usage := u\<rparr>) = group_info_ok c gi"
  by (simp add: group_info_ok_def)

lemma held_pages_usage: "held_pages c (gi\<lparr>usage := u\<rparr>) = held_pages c gi"
  by (simp add: held_pages_def)

lemma put_group_info_result:
  assumes live: "kmem s p = Some gi" and ok: "group_info_ok c gi"
  shows "put_group_info p s =
     Some (if usage gi = 1
           then s\<lparr>kmem := (kmem s)(p := None), pages := pages s - held_pages c gi\<rparr>
           else s\<lparr>kmem := (kmem s)(p \<mapsto> gi\<lparr>usage := usage gi - 1\<rparr>)\<rparr>)"
proof (cases "usage gi = 1")
  case True
  let ?s1 = "s\<lparr>kmem := (kmem s)(p \<mapsto> gi\<lparr>usage := usage gi - 1\<rparr>)\<rparr>"
  have l1: "kmem ?s1 p = Some (gi\<lparr>usage := usage gi - 1\<rparr>)" by simp
  have ok1: "group_info_ok c (gi\<lparr>usage := usage gi - 1\<rparr>)" using ok by (simp add: group_info_ok_usage)
  have "groups_free p ?s1 = Some (s\<lparr>kmem := (kmem s)(p := None), pages := pages s - held_pages c gi\<rparr>)"
    using groups_free_result[OF l1 ok1] by (simp add: held_pages_usage)
  then show ?thesis using live True by (simp add: put_group_info_def)
next
  case False
  then show ?thesis using live by (simp add: put_group_info_def)
qed

lemma get_group_info_result:
  "kmem s p = Some gi \<Longrightarrow>
     get_group_info p s = Some (s\<lparr>kmem := (kmem s)(p \<mapsto> gi\<lparr>usage := usage gi + 1\<rparr>)\<rparr>)"
  by (simp add: get_group_info_def)

lemma ceil_cover:
  fixes k p :: int
  assumes "0 < p"
  shows "k \<le> (k + p - 1) div p * p"
proof -
  have "(k + p - 1) div p * p + (k + p - 1) mod p = k + p - 1" by simp
  moreover have "(k + p - 1) mod p < p" using assms by simp
  ultimately show ?thesis by linarith
qed

lemma c_div_nonneg: "0 \<le> a \<Longrightarrow> 0 < b \<Longrightarrow> c_div a b = a div b"
  by (cases "a = 0") (simp_all add: c_div_def sgn_if)

lemma ceil_small:
  fixes k p :: int
  assumes "0 < p" "0 \<le> k" "k \<le> p"
  shows "0 \<le> (k + p - 1) div p \<and> (k + p - 1) div p \<le> 1"
proof
  show "0 \<le> (k + p - 1) div p" using assms by (simp add: pos_imp_zdiv_nonneg_iff)
  have lt: "k + p - 1 < 2 * p" using assms by linarith
  have "(k + p - 1) div p * p + (k + p - 1) mod p = k + p - 1" by simp
  moreover have "0 \<le> (k + p - 1) mod p" using assms(1) by simp
  ultimately have le: "(k + p - 1) div p * p \<le> k + p - 1" by linarith
  show "(k + p - 1) div p \<le> 1"
  proof (rule ccontr)
    assume "\<not> (k + p - 1) div p \<le> 1"
    then have "2 \<le> (k + p - 1) div p" by simp
    then have "2 * p \<le> (k + p - 1) div p * p" using assms(1) by (simp add: mult_right_mono)
    then show False using le lt by linarith
  qed
qed

text \<open>The three ways \<open>groups_alloc\<close> can go.\<close>

lemma groups_alloc_kmalloc_fails:
  assumes "limits_ok c" "0 \<le> k" "k + int (NGROUPS_PER_BLOCK c) - 1 \<le> INT_MAX" "\<not> alloc_ok s"
  shows "groups_alloc c k s = Some (None, alloc_next s)"
  using assms
  by (simp add: groups_alloc_def limits_ok_def int_fits_def INT_MAX_def kmalloc_def Let_def)

lemma groups_alloc_small:
  assumes lim: "limits_ok c" and k: "0 \<le> k" "k \<le> int (NGROUPS_SMALL c)"
    and fit: "k + int (NGROUPS_PER_BLOCK c) - 1 \<le> INT_MAX" and ok: "alloc_ok s"
  shows "groups_alloc c k s =
     Some (Some (brk s),
           (alloc_next s)\<lparr>brk := brk s + 1,
              kmem := (kmem s)(brk s \<mapsto> \<lparr>usage = 1, ngroups = k, nblocks = 1,
                small_block = map (stale s) [0..<NGROUPS_SMALL c], blocks = [Small_block]\<rparr>)\<rparr>)"
proof -
  let ?p = "int (NGROUPS_PER_BLOCK c)"
  have p: "0 < ?p" "int (NGROUPS_SMALL c) \<le> ?p" using lim by (auto simp: limits_ok_def)
  have d: "c_div (k + ?p - 1) ?p = (k + ?p - 1) div ?p"
    using k p by (simp add: c_div_nonneg)
  have "0 \<le> (k + ?p - 1) div ?p \<and> (k + ?p - 1) div ?p \<le> 1"
    using ceil_small[OF p(1) k(1)] k(2) p(2) by simp
  then have nb: "(if (k + ?p - 1) div ?p \<noteq> 0 then (k + ?p - 1) div ?p else 1) = 1"
    by auto
  have fits: "int_fits (k + ?p - 1)" using k p fit by (simp add: int_fits_def)
  have p0: "NGROUPS_PER_BLOCK c \<noteq> 0" using p by simp
  have km: "kmalloc c 1 s =
      (Some (brk s),
       (alloc_next s)\<lparr>brk := brk s + 1,
          kmem := (kmem s)(brk s \<mapsto> \<lparr>usage = 0, ngroups = 0, nblocks = 0,
             small_block = map (stale s) [0..<NGROUPS_SMALL c], blocks = [Uninit]\<rparr>)\<rparr>)"
    using ok by (simp add: kmalloc_def)
  show ?thesis
    using k(2)
    by (simp add: groups_alloc_def p0 fits d nb km Let_def alloc_next_def)
qed

lemma groups_alloc_paged:
  assumes lim: "limits_ok c" and k: "\<not> k \<le> int (NGROUPS_SMALL c)"
    and fit: "k + int (NGROUPS_PER_BLOCK c) - 1 \<le> INT_MAX" and ok: "alloc_ok s"
    and fresh: "kmem s (brk s) = None"
  defines "nb \<equiv> (k + int (NGROUPS_PER_BLOCK c) - 1) div int (NGROUPS_PER_BLOCK c)"
  shows "0 < nb \<and> k \<le> nb * int (NGROUPS_PER_BLOCK c) \<and>
     (if list_all id (take (nat nb) (tl (alloc_plan s)))
      then \<exists>bs. int (length bs) = nb \<and> list_all (is_page c) bs \<and>
           groups_alloc c k s =
             Some (Some (brk s),
               s\<lparr>brk := brk s + 1, pages := pages s + nb,
                  alloc_plan := drop (Suc (nat nb)) (alloc_plan s),
                  kmem := (kmem s)(brk s \<mapsto> \<lparr>usage = 1, ngroups = k, nblocks = nb,
                     small_block = map (stale s) [0..<NGROUPS_SMALL c], blocks = bs\<rparr>)\<rparr>)
      else \<exists>m. groups_alloc c k s =
             Some (None, s\<lparr>brk := brk s + 1, alloc_plan := drop m (alloc_plan s)\<rparr>))"
proof -
  let ?p = "int (NGROUPS_PER_BLOCK c)"
  have p: "0 < ?p" using lim by (auto simp: limits_ok_def)
  have k0: "0 < k" using k by linarith
  have d: "c_div (k + ?p - 1) ?p = nb" using k0 p by (simp add: c_div_nonneg nb_def)
  have cover: "k \<le> nb * ?p" unfolding nb_def by (rule ceil_cover[OF p])
  then have "0 < nb * ?p" using k0 by linarith
  then have nbpos: "0 < nb" using p by (simp add: zero_less_mult_iff)
  have fits: "int_fits (k + ?p - 1)" using k0 p fit by (simp add: int_fits_def)
  have p0: "NGROUPS_PER_BLOCK c \<noteq> 0" "0 < NGROUPS_PER_BLOCK c" using p by simp_all
  define gi0 where "gi0 = \<lparr>usage = 1, ngroups = k, nblocks = nb,
      small_block = map (stale s) [0..<NGROUPS_SMALL c], blocks = replicate (nat nb) Uninit\<rparr>"
  define s2 where "s2 = (alloc_next s)\<lparr>brk := brk s + 1, kmem := (kmem s)(brk s \<mapsto> gi0)\<rparr>"
  have km: "kmalloc c nb s =
      (Some (brk s),
       (alloc_next s)\<lparr>brk := brk s + 1,
          kmem := (kmem s)(brk s \<mapsto> \<lparr>usage = 0, ngroups = 0, nblocks = 0,
             small_block = map (stale s) [0..<NGROUPS_SMALL c],
             blocks = replicate (nat nb) Uninit\<rparr>)\<rparr>)"
    using ok by (simp add: kmalloc_def)
  have unfold: "groups_alloc c k s =
      (case groups_alloc_pages c gi0 0 s2 of
         None \<Rightarrow> None
       | Some (True, gi', i, s3) \<Rightarrow> Some (Some (brk s), s3\<lparr>kmem := (kmem s3)(brk s \<mapsto> gi')\<rparr>)
       | Some (False, gi', i, s3) \<Rightarrow>
           (case groups_alloc_undo gi' i (s3\<lparr>kmem := (kmem s3)(brk s \<mapsto> gi')\<rparr>) of
              None \<Rightarrow> None
            | Some s4 \<Rightarrow>
                (case kfree (brk s) s4 of
                   None \<Rightarrow> None
                 | Some s5 \<Rightarrow> Some (None, s5))))"
    using k nbpos by (simp add: groups_alloc_def p0 fits d km Let_def gi0_def s2_def alloc_next_def)
  have l0: "int (length (blocks gi0)) = nblocks gi0" using nbpos by (simp add: gi0_def)
  obtain ok' bs j m where loop: "groups_alloc_pages c gi0 0 s2 =
        Some (ok', gi0\<lparr>blocks := bs\<rparr>, j,
              s2\<lparr>pages := pages s2 + (j - 0), alloc_plan := drop m (alloc_plan s2)\<rparr>)"
      "0 \<le> j" "j \<le> nblocks gi0" "ok' \<longrightarrow> j = nblocks gi0"
      "ok' = list_all id (take (nat (nblocks gi0 - 0)) (alloc_plan s2))"
      "int (length bs) = nblocks gi0" "list_all (is_page c) (take (nat j) bs)"
      "ok' \<longrightarrow> m = nat (nblocks gi0 - 0)"
    using groups_alloc_pages_result[OF p0(2) _ _ l0, of 0 s2] nbpos
    by (auto simp: gi0_def)
  have plan1: "alloc_plan s2 = tl (alloc_plan s)" by (simp add: s2_def alloc_next_def)
  have okeq: "ok' = list_all id (take (nat nb) (tl (alloc_plan s)))"
    using loop(5) plan1 by (simp add: gi0_def)
  show ?thesis
  proof (cases ok')
    case True
    then have j: "j = nb" using loop(4) by (simp add: gi0_def)
    have m: "m = nat nb" using loop(8) True by (simp add: gi0_def)
    have lb: "int (length bs) = nb" using loop(6) by (simp add: gi0_def)
    then have "nat nb = length bs" by linarith
    then have pgs: "list_all (is_page c) bs" using loop(7) j by simp
    have "groups_alloc c k s =
        Some (Some (brk s),
          s\<lparr>brk := brk s + 1, pages := pages s + nb,
             alloc_plan := drop (Suc (nat nb)) (alloc_plan s),
             kmem := (kmem s)(brk s \<mapsto> \<lparr>usage = 1, ngroups = k, nblocks = nb,
                small_block = map (stale s) [0..<NGROUPS_SMALL c], blocks = bs\<rparr>)\<rparr>)"
      using unfold loop(1) True j m
      by (simp add: gi0_def s2_def alloc_next_def drop_Suc)
    then show ?thesis using True okeq lb pgs nbpos cover by auto
  next
    case False
    define t where "t = s2\<lparr>pages := pages s2 + (j - 0), alloc_plan := drop m (alloc_plan s2),
        kmem := (kmem s2)(brk s \<mapsto> gi0\<lparr>blocks := bs\<rparr>)\<rparr>"
    have jl: "nat j \<le> length (blocks (gi0\<lparr>blocks := bs\<rparr>))" using loop(3,6) by simp
    have pre: "list_all (is_page c) (take (nat j) (blocks (gi0\<lparr>blocks := bs\<rparr>)))"
      using loop(7) by simp
    have undo: "groups_alloc_undo (gi0\<lparr>blocks := bs\<rparr>) j t = Some (t\<lparr>pages := pages t - j\<rparr>)"
      by (rule groups_alloc_undo_result[OF loop(2) jl pre])
    have live: "kmem (t\<lparr>pages := pages t - j\<rparr>) (brk s) = Some (gi0\<lparr>blocks := bs\<rparr>)"
      by (simp add: t_def)
    have idem: "(kmem s)(brk s := None) = kmem s" using fresh by (simp add: fun_upd_idem)
    have free: "kfree (brk s) (t\<lparr>pages := pages t - j\<rparr>)
        = Some (s\<lparr>brk := brk s + 1, alloc_plan := drop (Suc m) (alloc_plan s)\<rparr>)"
      using live by (simp add: kfree_def t_def s2_def alloc_next_def drop_Suc idem)
    have "groups_alloc c k s =
        Some (None, s\<lparr>brk := brk s + 1, alloc_plan := drop (Suc m) (alloc_plan s)\<rparr>)"
      using unfold loop(1) False undo free by (simp add: t_def)
    then show ?thesis using False okeq nbpos cover by auto
  qed
qed

lemma GROUP_AT_usage: "GROUP_AT c (gi\<lparr>usage := u\<rparr>) i = GROUP_AT c gi i"
  by (auto simp: GROUP_AT_def Let_def split: block.splits)

lemma gids_usage: "gids c (gi\<lparr>usage := u\<rparr>) = gids c gi"
  by (simp add: gids_def GROUP_AT_usage)

lemma groups_sort_ptr_result:
  assumes live: "kmem s p = Some gp" and ok: "group_info_ok c gp"
    and n: "ngroups gp \<le> 1743392200"
  shows "\<exists>gp'. groups_sort c gp = Some gp'
     \<and> groups_sort_ptr c p s = Some (s\<lparr>kmem := (kmem s)(p \<mapsto> gp')\<rparr>)
     \<and> group_info_ok c gp' \<and> ngroups gp' = ngroups gp \<and> nblocks gp' = nblocks gp
     \<and> usage gp' = usage gp \<and> mset (gids c gp') = mset (gids c gp) \<and> sorted (gids c gp')"
proof -
  obtain gp' where r: "groups_sort c gp = Some gp'" "group_info_ok c gp'"
    "ngroups gp' = ngroups gp" "nblocks gp' = nblocks gp" "usage gp' = usage gp"
    "mset (gids c gp') = mset (gids c gp)" "sorted (gids c gp')"
    using groups_sort_result[OF ok n] by blast
  have "groups_sort_ptr c p s = Some (s\<lparr>kmem := (kmem s)(p \<mapsto> gp')\<rparr>)"
    using live r(1) by (simp add: groups_sort_ptr_def)
  then show ?thesis using r by blast
qed

lemma set_groups_sorted_result:
  assumes q: "kmem s (cred_group_info new) = Some gq" and okq: "group_info_ok c gq"
    and p: "kmem s p = Some gp"
    and own: "p = cred_group_info new \<longrightarrow> usage gp \<noteq> 1"
  shows "set_groups_sorted new p s =
     Some (new\<lparr>cred_group_info := p\<rparr>,
       if p = cred_group_info new then s
       else if usage gq = 1
         then s\<lparr>kmem := (kmem s)(cred_group_info new := None, p \<mapsto> gp\<lparr>usage := usage gp + 1\<rparr>),
                pages := pages s - held_pages c gq\<rparr>
         else s\<lparr>kmem := (kmem s)(cred_group_info new \<mapsto> gq\<lparr>usage := usage gq - 1\<rparr>,
                                   p \<mapsto> gp\<lparr>usage := usage gp + 1\<rparr>)\<rparr>)"
proof (cases "p = cred_group_info new")
  case True
  then have e: "gq = gp" using p q by simp
  have u: "usage gp \<noteq> 1" using own True by simp
  let ?s1 = "s\<lparr>kmem := (kmem s)(p \<mapsto> gp\<lparr>usage := usage gp - 1\<rparr>)\<rparr>"
  have put: "put_group_info p s = Some ?s1"
    using put_group_info_result[OF p] okq e u by simp
  have "get_group_info p ?s1 = Some (?s1\<lparr>kmem := (kmem ?s1)(p \<mapsto> gp\<lparr>usage := usage gp - 1\<rparr>\<lparr>usage := usage (gp\<lparr>usage := usage gp - 1\<rparr>) + 1\<rparr>)\<rparr>)"
    by (rule get_group_info_result) simp
  moreover have "?s1\<lparr>kmem := (kmem ?s1)(p \<mapsto> gp\<lparr>usage := usage gp - 1\<rparr>\<lparr>usage := usage (gp\<lparr>usage := usage gp - 1\<rparr>) + 1\<rparr>)\<rparr> = s"
    using p by (simp add: map_upd_triv)
  ultimately show ?thesis using put True by (simp add: set_groups_sorted_def)
next
  case False
  let ?q = "cred_group_info new"
  show ?thesis
  proof (cases "usage gq = 1")
    case True
    let ?s1 = "s\<lparr>kmem := (kmem s)(?q := None), pages := pages s - held_pages c gq\<rparr>"
    have put: "put_group_info ?q s = Some ?s1"
      using put_group_info_result[OF q okq] True by simp
    have "kmem ?s1 p = Some gp" using p False by simp
    then have "get_group_info p ?s1 = Some (?s1\<lparr>kmem := (kmem ?s1)(p \<mapsto> gp\<lparr>usage := usage gp + 1\<rparr>)\<rparr>)"
      by (rule get_group_info_result)
    then show ?thesis using put True False by (simp add: set_groups_sorted_def)
  next
    case u: False
    let ?s1 = "s\<lparr>kmem := (kmem s)(?q \<mapsto> gq\<lparr>usage := usage gq - 1\<rparr>)\<rparr>"
    have put: "put_group_info ?q s = Some ?s1"
      using put_group_info_result[OF q okq] u by simp
    have "kmem ?s1 p = Some gp" using p False by simp
    then have "get_group_info p ?s1 = Some (?s1\<lparr>kmem := (kmem ?s1)(p \<mapsto> gp\<lparr>usage := usage gp + 1\<rparr>)\<rparr>)"
      by (rule get_group_info_result)
    then show ?thesis using put u False by (simp add: set_groups_sorted_def)
  qed
qed

lemma prepare_creds_result:
  assumes "alloc_ok s" "kmem s (cred_group_info (current_cred s)) = Some gq"
  shows "prepare_creds s =
     Some (Some (current_cred s),
       (alloc_next s)\<lparr>kmem := (kmem s)(cred_group_info (current_cred s) \<mapsto> gq\<lparr>usage := usage gq + 1\<rparr>)\<rparr>)"
proof -
  have "kmem (alloc_next s) (cred_group_info (current_cred s)) = Some gq"
    using assms(2) by (simp add: alloc_next_def)
  then show ?thesis
    using assms(1) get_group_info_result[of "alloc_next s" "cred_group_info (current_cred s)" gq]
    by (simp add: prepare_creds_def alloc_next_def)
qed


lemma commit_creds_result:
  assumes q: "kmem s (cred_group_info (current_cred s)) = Some gq" and ok: "group_info_ok c gq"
  shows "commit_creds new s =
     Some (0, if usage gq = 1
              then s\<lparr>current_cred := new, kmem := (kmem s)(cred_group_info (current_cred s) := None),
                     pages := pages s - held_pages c gq\<rparr>
              else s\<lparr>current_cred := new,
                     kmem := (kmem s)(cred_group_info (current_cred s) \<mapsto> gq\<lparr>usage := usage gq - 1\<rparr>)\<rparr>)"
proof -
  have live: "kmem (s\<lparr>current_cred := new\<rparr>) (cred_group_info (current_cred s)) = Some gq"
    using q by simp
  show ?thesis
    using put_group_info_result[OF live ok] by (simp add: commit_creds_def)
qed

text \<open>What \<open>set_current_groups\<close> does once the requested set is sorted.\<close>

lemma set_current_groups_run:
  assumes p: "kmem s p = Some gp" and okp: "group_info_ok c gp"
    and n: "ngroups gp \<le> 1743392200"
    and q: "kmem s (cred_group_info (current_cred s)) = Some gq" and okq: "group_info_ok c gq"
    and sq: "sorted (gids c gq)" and uq: "0 < usage gq" and draft: "alloc_ok s"
  shows "\<exists>gp'. groups_sort c gp = Some gp' \<and> sorted (gids c gp')
     \<and> mset (gids c gp') = mset (gids c gp)
     \<and> is_subset c gp' gq = Some (mset (gids c gp') \<subseteq># mset (gids c gq))
     \<and> (if \<not> cap_setgid (current_cred s) \<and> \<not> mset (gids c gp') \<subseteq># mset (gids c gq)
        then p \<noteq> cred_group_info (current_cred s)
          \<and> set_current_groups c p s = Some (Inl EPERM, (alloc_next s)\<lparr>kmem := (kmem s)(p \<mapsto> gp')\<rparr>)
        else \<exists>s'. set_current_groups c p s = Some (Inr 0, s')
          \<and> current_cred s' = (current_cred s)\<lparr>cred_group_info := p\<rparr>
          \<and> alloc_plan s' = tl (alloc_plan s)
          \<and> (if p = cred_group_info (current_cred s) then kmem s' = kmem s \<and> pages s' = pages s
              else if usage gq = 1
              then kmem s' = (kmem s)(cred_group_info (current_cred s) := None,
                                      p \<mapsto> gp'\<lparr>usage := usage gp + 1\<rparr>)
                   \<and> pages s' = pages s - held_pages c gq
              else kmem s' = (kmem s)(cred_group_info (current_cred s) \<mapsto> gq\<lparr>usage := usage gq - 1\<rparr>,
                                      p \<mapsto> gp'\<lparr>usage := usage gp + 1\<rparr>)
                   \<and> pages s' = pages s))"
proof -
  let ?q = "cred_group_info (current_cred s)"
  obtain gp' where srt: "groups_sort c gp = Some gp'"
    "groups_sort_ptr c p s = Some (s\<lparr>kmem := (kmem s)(p \<mapsto> gp')\<rparr>)"
    "group_info_ok c gp'" "ngroups gp' = ngroups gp" "nblocks gp' = nblocks gp"
    "usage gp' = usage gp" "mset (gids c gp') = mset (gids c gp)" "sorted (gids c gp')"
    using groups_sort_ptr_result[OF p okp n] by blast
  define s1 where "s1 = s\<lparr>kmem := (kmem s)(p \<mapsto> gp')\<rparr>"
  have aliased: "gp' = gq" if "p = ?q"
  proof -
    have "gp = gq" using that p q by simp
    then show ?thesis using groups_sort_sorted_id[OF okp _ n] sq srt(1) by simp
  qed
  have q1: "kmem s1 (cred_group_info (current_cred s1)) = Some gq"
    using q aliased by (auto simp: s1_def)
  define s2 where "s2 = (alloc_next s1)\<lparr>kmem := (kmem s1)(?q \<mapsto> gq\<lparr>usage := usage gq + 1\<rparr>)\<rparr>"
  have prep: "prepare_creds s1 = Some (Some (current_cred s), s2)"
    using prepare_creds_result[OF _ q1] draft by (simp add: s1_def s2_def alloc_ok_def)
  define g1 where "g1 = (if p = ?q then gq\<lparr>usage := usage gq + 1\<rparr> else gp')"
  have p2: "kmem s2 p = Some g1" by (simp add: s2_def s1_def g1_def alloc_next_def)
  have q2: "kmem s2 ?q = Some (gq\<lparr>usage := usage gq + 1\<rparr>)"
    by (simp add: s2_def alloc_next_def)
  have g1: "group_info_ok c g1" "gids c g1 = gids c gp'" "usage g1 = usage gp + (if p = ?q then 1 else 0)"
    using aliased okq srt(3,6) by (auto simp: g1_def group_info_ok_usage gids_usage)
  have okq2: "group_info_ok c (gq\<lparr>usage := usage gq + 1\<rparr>)" using okq by (simp add: group_info_ok_usage)
  have sub: "is_subset_ptr c p ?q s2 = Some (mset (gids c gp') \<subseteq># mset (gids c gq))"
    using is_subset_mset[OF g1(1) okq2] g1(2) srt(8) sq p2 q2
    by (simp add: is_subset_ptr_def gids_usage)
  have sub0: "is_subset c gp' gq = Some (mset (gids c gp') \<subseteq># mset (gids c gq))"
    by (rule is_subset_mset[OF srt(3) okq srt(8) sq])
  have cap2: "ns_capable_setgid s2 = cap_setgid (current_cred s)"
    by (simp add: ns_capable_setgid_def s2_def s1_def alloc_next_def)
  have unfold: "set_current_groups c p s =
      (case (if \<not> cap_setgid (current_cred s)
             then Some (\<not> mset (gids c gp') \<subseteq># mset (gids c gq)) else Some False) of
         None \<Rightarrow> None
       | Some True \<Rightarrow>
           (case abort_creds (current_cred s) s2 of
              None \<Rightarrow> None
            | Some s3 \<Rightarrow> Some (Inl EPERM, s3))
       | Some False \<Rightarrow>
           (case set_groups_sorted (current_cred s) p s2 of
              None \<Rightarrow> None
            | Some (new', s3) \<Rightarrow>
                (case commit_creds new' s3 of
                   None \<Rightarrow> None
                 | Some (r, s4) \<Rightarrow> Some (Inr r, s4))))"
    using srt(2) prep sub cap2 by (simp add: set_current_groups_def s1_def)
  show ?thesis
  proof (cases "\<not> cap_setgid (current_cred s) \<and> \<not> mset (gids c gp') \<subseteq># mset (gids c gq)")
    case True
    have ne: "p \<noteq> ?q" using True aliased by auto
    have "put_group_info ?q s2 = Some (s2\<lparr>kmem := (kmem s2)(?q \<mapsto> gq)\<rparr>)"
      using put_group_info_result[OF q2 okq2] uq by simp
    moreover have "s2\<lparr>kmem := (kmem s2)(?q \<mapsto> gq)\<rparr> = (alloc_next s)\<lparr>kmem := (kmem s)(p \<mapsto> gp')\<rparr>"
    proof -
      have "(kmem s)(p \<mapsto> gp', ?q \<mapsto> gq) = (kmem s)(p \<mapsto> gp')"
        using q ne by (auto simp: fun_eq_iff)
      then show ?thesis by (simp add: s2_def s1_def alloc_next_def)
    qed
    ultimately have "abort_creds (current_cred s) s2 = Some ((alloc_next s)\<lparr>kmem := (kmem s)(p \<mapsto> gp')\<rparr>)"
      by (simp add: abort_creds_def)
    then have "set_current_groups c p s = Some (Inl EPERM, (alloc_next s)\<lparr>kmem := (kmem s)(p \<mapsto> gp')\<rparr>)"
      using unfold True by simp
    then have "if \<not> cap_setgid (current_cred s) \<and> \<not> mset (gids c gp') \<subseteq># mset (gids c gq)
        then p \<noteq> ?q
          \<and> set_current_groups c p s = Some (Inl EPERM, (alloc_next s)\<lparr>kmem := (kmem s)(p \<mapsto> gp')\<rparr>)
        else \<exists>s'. set_current_groups c p s = Some (Inr 0, s')
          \<and> current_cred s' = (current_cred s)\<lparr>cred_group_info := p\<rparr>
          \<and> alloc_plan s' = tl (alloc_plan s)
          \<and> (if p = ?q then kmem s' = kmem s \<and> pages s' = pages s
              else if usage gq = 1
              then kmem s' = (kmem s)(?q := None, p \<mapsto> gp'\<lparr>usage := usage gp + 1\<rparr>)
                   \<and> pages s' = pages s - held_pages c gq
              else kmem s' = (kmem s)(?q \<mapsto> gq\<lparr>usage := usage gq - 1\<rparr>,
                                      p \<mapsto> gp'\<lparr>usage := usage gp + 1\<rparr>)
                   \<and> pages s' = pages s)"
      using ne by (simp only: if_P[OF True]) simp
    with srt(1) srt(8) srt(7) sub0 show ?thesis by blast
  next
    case False
    then have cond: "(if \<not> cap_setgid (current_cred s)
             then Some (\<not> mset (gids c gp') \<subseteq># mset (gids c gq)) else Some False) = Some False"
      by auto
    have own: "p = cred_group_info (current_cred s) \<longrightarrow> usage g1 \<noteq> 1"
      using g1(3) uq aliased srt(6) by auto
    have q2': "kmem s2 (cred_group_info (current_cred s)) = Some (gq\<lparr>usage := usage gq + 1\<rparr>)"
      by (rule q2)
    define s3 where "s3 = (if p = ?q then s2
        else s2\<lparr>kmem := (kmem s2)(?q \<mapsto> gq, p \<mapsto> g1\<lparr>usage := usage g1 + 1\<rparr>)\<rparr>)"
    have inst: "set_groups_sorted (current_cred s) p s2 =
        Some ((current_cred s)\<lparr>cred_group_info := p\<rparr>, s3)"
      using set_groups_sorted_result[OF q2' okq2 p2 own] uq by (simp add: s3_def)
    define g3 where "g3 = (if p = ?q then gq\<lparr>usage := usage gq + 1\<rparr> else gq)"
    have cur3: "current_cred s3 = current_cred s"
      by (simp add: s3_def s2_def s1_def alloc_next_def)
    have q3: "kmem s3 (cred_group_info (current_cred s3)) = Some g3"
      using cur3 q2 by (auto simp: s3_def g3_def)
    have ok3: "group_info_ok c g3" using okq by (simp add: g3_def group_info_ok_usage)
    define s4 where "s4 = (if usage g3 = 1
        then s3\<lparr>current_cred := (current_cred s)\<lparr>cred_group_info := p\<rparr>,
                kmem := (kmem s3)(?q := None), pages := pages s3 - held_pages c g3\<rparr>
        else s3\<lparr>current_cred := (current_cred s)\<lparr>cred_group_info := p\<rparr>,
                kmem := (kmem s3)(?q \<mapsto> g3\<lparr>usage := usage g3 - 1\<rparr>)\<rparr>)"
    have com: "commit_creds ((current_cred s)\<lparr>cred_group_info := p\<rparr>) s3 = Some (0, s4)"
      using commit_creds_result[OF q3 ok3] cur3 by (simp add: s4_def)
    have run: "set_current_groups c p s = Some (Inr 0, s4)"
      using unfold cond inst com by simp
    have cur4: "current_cred s4 = (current_cred s)\<lparr>cred_group_info := p\<rparr>"
      by (simp add: s4_def)
    have plan4: "alloc_plan s4 = tl (alloc_plan s)"
      by (simp add: s4_def s3_def s2_def s1_def alloc_next_def)
    have rest: "if p = ?q then kmem s4 = kmem s \<and> pages s4 = pages s
              else if usage gq = 1
              then kmem s4 = (kmem s)(?q := None, p \<mapsto> gp'\<lparr>usage := usage gp + 1\<rparr>)
                   \<and> pages s4 = pages s - held_pages c gq
              else kmem s4 = (kmem s)(?q \<mapsto> gq\<lparr>usage := usage gq - 1\<rparr>,
                                      p \<mapsto> gp'\<lparr>usage := usage gp + 1\<rparr>)
                   \<and> pages s4 = pages s"
    proof (cases "p = ?q")
      case True
      have "usage g3 \<noteq> 1" using True uq by (simp add: g3_def)
      then have "kmem s4 = (kmem s3)(?q \<mapsto> gq)" "pages s4 = pages s3"
        using True by (simp_all add: s4_def g3_def)
      moreover have "kmem s3 = (kmem s)(p \<mapsto> gp', ?q \<mapsto> gq\<lparr>usage := usage gq + 1\<rparr>)"
        "pages s3 = pages s"
        using True by (simp_all add: s3_def s2_def s1_def alloc_next_def)
      ultimately have "kmem s4 = kmem s" "pages s4 = pages s"
        using True q by (auto simp: fun_eq_iff)
      then show ?thesis using True by simp
    next
      case ne: False
      have k3: "kmem s3 = (kmem s)(?q \<mapsto> gq, p \<mapsto> gp'\<lparr>usage := usage gp + 1\<rparr>)"
        "pages s3 = pages s"
        using ne srt(6) by (auto simp: s3_def s2_def s1_def alloc_next_def g1_def fun_eq_iff)
      have g3e: "g3 = gq" using ne by (simp add: g3_def)
      show ?thesis
      proof (cases "usage gq = 1")
        case True
        have "kmem s4 = (kmem s3)(?q := None)" "pages s4 = pages s3 - held_pages c gq"
          using True g3e by (simp_all add: s4_def)
        then show ?thesis using k3 ne True by (auto simp: fun_eq_iff)
      next
        case False
        have "kmem s4 = (kmem s3)(?q \<mapsto> gq\<lparr>usage := usage gq - 1\<rparr>)" "pages s4 = pages s3"
          using False g3e by (simp_all add: s4_def)
        then show ?thesis using k3 ne False by (auto simp: fun_eq_iff)
      qed
    qed
    have "\<exists>s'. set_current_groups c p s = Some (Inr 0, s')
          \<and> current_cred s' = (current_cred s)\<lparr>cred_group_info := p\<rparr>
          \<and> alloc_plan s' = tl (alloc_plan s)
          \<and> (if p = ?q then kmem s' = kmem s \<and> pages s' = pages s
              else if usage gq = 1
              then kmem s' = (kmem s)(?q := None, p \<mapsto> gp'\<lparr>usage := usage gp + 1\<rparr>)
                   \<and> pages s' = pages s - held_pages c gq
              else kmem s' = (kmem s)(?q \<mapsto> gq\<lparr>usage := usage gq - 1\<rparr>,
                                      p \<mapsto> gp'\<lparr>usage := usage gp + 1\<rparr>)
                   \<and> pages s' = pages s)"
      using run cur4 plan4 rest by (intro exI[of _ s4]) simp
    then have "if \<not> cap_setgid (current_cred s) \<and> \<not> mset (gids c gp') \<subseteq># mset (gids c gq)
        then p \<noteq> ?q
          \<and> set_current_groups c p s = Some (Inl EPERM, (alloc_next s)\<lparr>kmem := (kmem s)(p \<mapsto> gp')\<rparr>)
        else \<exists>s'. set_current_groups c p s = Some (Inr 0, s')
          \<and> current_cred s' = (current_cred s)\<lparr>cred_group_info := p\<rparr>
          \<and> alloc_plan s' = tl (alloc_plan s)
          \<and> (if p = ?q then kmem s' = kmem s \<and> pages s' = pages s
              else if usage gq = 1
              then kmem s' = (kmem s)(?q := None, p \<mapsto> gp'\<lparr>usage := usage gp + 1\<rparr>)
                   \<and> pages s' = pages s - held_pages c gq
              else kmem s' = (kmem s)(?q \<mapsto> gq\<lparr>usage := usage gq - 1\<rparr>,
                                      p \<mapsto> gp'\<lparr>usage := usage gp + 1\<rparr>)
                   \<and> pages s' = pages s)"
      by (simp only: if_not_P[OF False])
    with srt(1) srt(8) srt(7) sub0 show ?thesis by blast
  qed
qed














text \<open>
  C3. On a sorted set \<open>groups_search\<close> returns 1 exactly when the identifier is among the
  set's identifiers, and 0 otherwise; for the \<open>NULL\<close> pointer and for a set with no
  identifiers it returns 0. In each case the search returns: it does not fault.
\<close>

theorem groups_search_correct:
  "groups_search c None g = Some 0
   \<and> (ngroups gi = 0 \<longrightarrow> groups_search c (Some gi) g = Some 0)
   \<and> (group_info_ok c gi \<and> sorted (gids c gi) \<longrightarrow>
        groups_search c (Some gi) g = Some (if g \<in> set (gids c gi) then 1 else 0))"
proof (intro conjI impI)
  show "groups_search c None g = Some 0" by (simp add: groups_search_def)
next
  assume "ngroups gi = 0"
  then have "groups_search c (Some gi) g = groups_search_loop c gi g 0 0"
    by (simp add: groups_search_def u32_def)
  also have "\<dots> = Some 0" by (subst groups_search_loop.simps) simp
  finally show "groups_search c (Some gi) g = Some 0" .
next
  assume "group_info_ok c gi \<and> sorted (gids c gi)"
  then show "groups_search c (Some gi) g = Some (if g \<in> set (gids c gi) then 1 else 0)"
    using groups_search_sorted by blast
qed

theorem groups_search_correct_witness:
  "groups_search ex_limits (Some (small_set [100, 200, 300])) 200 = Some 1
   \<and> groups_search ex_limits (Some (small_set [100, 200, 300])) 250 = Some 0
   \<and> groups_search ex_limits (Some (small_set [])) 250 = Some 0"
proof -
  have ok: "group_info_ok ex_limits (small_set [100, 200, 300])" by (simp add: small_set_ok)
  have g: "gids ex_limits (small_set [100, 200, 300]) = [100, 200, 300]"
    by (simp add: gids_small_set)
  have srt: "sorted (gids ex_limits (small_set [100, 200, 300]))" by (simp add: g)
  have z: "ngroups (small_set []) = 0" by (simp add: small_set_def)
  show ?thesis
    using groups_search_correct[of ex_limits 200 "small_set [100, 200, 300]"]
      groups_search_correct[of ex_limits 250 "small_set [100, 200, 300]"]
      groups_search_correct[of ex_limits 250 "small_set []"] ok srt z
    by (simp add: g)
qed

text \<open>
  C2, as stated, fails: \<open>[1, 1]\<close> and \<open>[1]\<close> are sorted and every identifier of the first
  appears in the second, yet \<open>is_subset\<close> returns false, against the comment above the
  function (true if the first is a subset of the second). Each identifier of the second
  list matches at most one identifier of the first: \<open>j\<close> is advanced past a match.
\<close>

theorem is_subset_duplicates_counterexample:
  "group_info_ok ex_limits (small_set [1, 1]) \<and> group_info_ok ex_limits (small_set [1])
   \<and> sorted (gids ex_limits (small_set [1, 1])) \<and> sorted (gids ex_limits (small_set [1]))
   \<and> set (gids ex_limits (small_set [1, 1])) \<subseteq> set (gids ex_limits (small_set [1]))
   \<and> is_subset ex_limits (small_set [1, 1]) (small_set [1]) = Some False"
proof -
  have "is_subset ex_limits (small_set [1, 1]) (small_set [1]) = Some False"
    by (simp add: is_subset_def is_subset_loop.simps is_subset_scan.simps ex_limits_def
        small_set_def GROUP_AT_def cell_def u32_def gid_lte_def gid_eq_def kgid_val_def
        cong: prod.case_cong_weak)
  then show ?thesis by (simp add: small_set_ok gids_small_set)
qed

text \<open>
  C2, what \<open>is_subset\<close> computes. For sorted sets \<open>a\<close> and \<open>b\<close>, \<open>is_subset a b\<close> returns true exactly when
  every identifier occurs in \<open>a\<close> at most as often as in \<open>b\<close>; when \<open>a\<close> has no
  identifier twice, exactly when every identifier of \<open>a\<close> appears in \<open>b\<close>. \<open>is_subset a a\<close>
  is true, and so is \<open>is_subset a b\<close> when \<open>a\<close> has no identifiers.
\<close>

theorem is_subset_correct:
  assumes "group_info_ok c a" and "group_info_ok c b"
    and "sorted (gids c a)" and "sorted (gids c b)"
  shows "is_subset c a b = Some (mset (gids c a) \<subseteq># mset (gids c b))
    \<and> (distinct (gids c a) \<longrightarrow> is_subset c a b = Some (set (gids c a) \<subseteq> set (gids c b)))
    \<and> is_subset c a a = Some True
    \<and> (ngroups a = 0 \<longrightarrow> is_subset c a b = Some True)"
proof (intro conjI impI)
  show m: "is_subset c a b = Some (mset (gids c a) \<subseteq># mset (gids c b))"
    by (rule is_subset_mset[OF assms])
  show "is_subset c a a = Some True"
    using is_subset_mset[OF assms(1,1,3,3)] by simp
  {
    assume "distinct (gids c a)"
    then show "is_subset c a b = Some (set (gids c a) \<subseteq> set (gids c b))"
      using m by (simp add: distinct_mset_subset_iff)
  }
  {
    assume "ngroups a = 0"
    then have "gids c a = []" by (simp add: gids_def)
    then show "is_subset c a b = Some True" using m by simp
  }
qed

theorem is_subset_correct_witness:
  "is_subset ex_limits (small_set [200]) (small_set [100, 200]) = Some True
   \<and> is_subset ex_limits (small_set [200, 400]) (small_set [100, 200]) = Some False"
proof -
  have ok: "group_info_ok ex_limits (small_set [200])" "group_info_ok ex_limits (small_set [100, 200])"
    "group_info_ok ex_limits (small_set [200, 400])"
    by (simp_all add: small_set_ok)
  have g: "gids ex_limits (small_set [200]) = [200]"
    "gids ex_limits (small_set [100, 200]) = [100, 200]"
    "gids ex_limits (small_set [200, 400]) = [200, 400]"
    by (simp_all add: gids_small_set)
  have srt: "sorted (gids ex_limits (small_set [200]))" "sorted (gids ex_limits (small_set [100, 200]))"
    "sorted (gids ex_limits (small_set [200, 400]))"
    by (simp_all add: g)
  show ?thesis
    using is_subset_correct[OF ok(1,2) srt(1,2)] is_subset_correct[OF ok(3,2) srt(3,2)]
    by (simp add: g)
qed

text \<open>
  C4. \<open>groups_sort\<close> returns, and leaves in the same structure (same count, same blocks,
  same reference count) a non-decreasing sequence that is a permutation of the
  identifiers it was given. Sorting a sorted set changes nothing, so sorting twice is
  sorting once. The count is at most 1743392200: above it the stride of the first loop
  leaves the range of \<open>int\<close>.
\<close>

theorem groups_sort_correct:
  assumes "group_info_ok c gi" and "ngroups gi \<le> 1743392200"
  shows "\<exists>gi'. groups_sort c gi = Some gi'
     \<and> sorted (gids c gi') \<and> mset (gids c gi') = mset (gids c gi)
     \<and> group_info_ok c gi' \<and> ngroups gi' = ngroups gi \<and> nblocks gi' = nblocks gi
     \<and> usage gi' = usage gi
     \<and> groups_sort c gi' = Some gi'
     \<and> (sorted (gids c gi) \<longrightarrow> gi' = gi)"
proof -
  obtain gi' where r: "groups_sort c gi = Some gi'" "group_info_ok c gi'"
    "ngroups gi' = ngroups gi" "nblocks gi' = nblocks gi" "usage gi' = usage gi"
    "mset (gids c gi') = mset (gids c gi)" "sorted (gids c gi')"
    using groups_sort_result[OF assms] by blast
  have again: "groups_sort c gi' = Some gi'"
    using groups_sort_sorted_id[OF r(2,7)] r(3) assms(2) by simp
  have "sorted (gids c gi) \<longrightarrow> gi' = gi"
    using groups_sort_sorted_id[OF assms(1) _ assms(2)] r(1) by auto
  then show ?thesis using r again by blast
qed

theorem groups_sort_correct_witness:
  "group_info_ok ex_limits (small_set [5, 3, 9, 3, 1]) \<and> ngroups (small_set [5, 3, 9, 3, 1]) \<le> 1743392200
   \<and> (\<exists>gi'. groups_sort ex_limits (small_set [5, 3, 9, 3, 1]) = Some gi'
        \<and> sorted (gids ex_limits gi') \<and> mset (gids ex_limits gi') = mset [5, 3, 9, 3, 1])"
proof -
  have ok: "group_info_ok ex_limits (small_set [5, 3, 9, 3, 1])" by (simp add: small_set_ok)
  have n: "ngroups (small_set [5, 3, 9, 3, 1]) \<le> 1743392200" by (simp add: small_set_def)
  have g: "gids ex_limits (small_set [5, 3, 9, 3, 1]) = [5, 3, 9, 3, 1]"
    by (simp add: gids_small_set)
  show ?thesis using groups_sort_correct[OF ok n] ok n unfolding g by blast
qed

lemma heap_ok_ex_state: "heap_ok ex_state"
  by (simp add: heap_ok_def ex_state_def)

lemma limits_ok_ex: "limits_ok ex_limits"
  by (simp add: limits_ok_def ex_limits_def INT_MAX_def)

text \<open>
  C7. For a size \<open>k \<ge> 0\<close> (with \<open>k + NGROUPS_PER_BLOCK - 1\<close> in the range of \<open>int\<close>),
  \<open>groups_alloc\<close> returns. It succeeds exactly when the allocation of the structure and,
  for a set above \<open>NGROUPS_SMALL\<close>, of each of its pages succeeds. On success the new
  structure is at an address not in use before, has count \<open>k\<close>, \<open>ceil(k / NGROUPS_PER_BLOCK)\<close>
  blocks (at least one) and reference count 1, and the pages in use have grown by the
  pages it holds; \<open>groups_free\<close> (and so the release of the only reference) then gives
  back the structure and every page: the live structures and the number of pages in use
  are as before the allocation. On failure the result is \<open>NULL\<close> and the live structures
  and the pages in use are as before: the pages already obtained have been freed.
\<close>

theorem groups_alloc_release:
  assumes lim: "limits_ok c" and k: "0 \<le> k"
    and fit: "k + int (NGROUPS_PER_BLOCK c) - 1 \<le> INT_MAX" and heap: "heap_ok s"
  shows "\<exists>r s'. groups_alloc c k s = Some (r, s')
    \<and> (r \<noteq> None) =
        list_all id (take (if k \<le> int (NGROUPS_SMALL c) then 1
                           else 1 + nat ((k + int (NGROUPS_PER_BLOCK c) - 1) div int (NGROUPS_PER_BLOCK c)))
                      (alloc_plan s))
    \<and> (case r of
          None \<Rightarrow> kmem s' = kmem s \<and> pages s' = pages s
        | Some p \<Rightarrow>
            kmem s p = None
            \<and> (\<exists>gi. kmem s' = (kmem s)(p \<mapsto> gi) \<and> ngroups gi = k
                  \<and> nblocks gi = max 1 ((k + int (NGROUPS_PER_BLOCK c) - 1) div int (NGROUPS_PER_BLOCK c))
                  \<and> usage gi = 1 \<and> group_info_ok c gi
                  \<and> pages s' = pages s + held_pages c gi)
            \<and> (\<exists>s''. groups_free p s' = Some s'' \<and> put_group_info p s' = Some s''
                  \<and> kmem s'' = kmem s \<and> pages s'' = pages s))"
proof -
  let ?p = "int (NGROUPS_PER_BLOCK c)"
  let ?nb = "(k + ?p - 1) div ?p"
  have p: "0 < ?p" "int (NGROUPS_SMALL c) \<le> ?p" using lim by (auto simp: limits_ok_def)
  have fresh: "kmem s (brk s) = None" using heap by (simp add: heap_ok_def)
  have kmax: "k \<le> INT_MAX" using fit p by linarith
  have released: "\<exists>s''. groups_free (brk s) s' = Some s'' \<and> put_group_info (brk s) s' = Some s''
        \<and> kmem s'' = kmem s \<and> pages s'' = pages s"
    if s': "kmem s' = (kmem s)(brk s \<mapsto> gi)" "pages s' = pages s + held_pages c gi"
      and gi: "usage gi = 1" "group_info_ok c gi" for s' gi
  proof -
    have live: "kmem s' (brk s) = Some gi" using s'(1) by simp
    let ?s'' = "s'\<lparr>kmem := (kmem s')(brk s := None), pages := pages s' - held_pages c gi\<rparr>"
    have "groups_free (brk s) s' = Some ?s''" by (rule groups_free_result[OF live gi(2)])
    moreover have "put_group_info (brk s) s' = Some ?s''"
      using put_group_info_result[OF live gi(2)] gi(1) by simp
    moreover have "kmem ?s'' = kmem s" using s'(1) fresh by (simp add: fun_upd_idem)
    moreover have "pages ?s'' = pages s" using s'(2) by simp
    ultimately show ?thesis by blast
  qed
  show ?thesis
  proof (cases "alloc_ok s")
    case False
    have run: "groups_alloc c k s = Some (None, alloc_next s)"
      by (rule groups_alloc_kmalloc_fails[OF lim k fit False])
    have "\<not> list_all id (take (Suc 0) (alloc_plan s))"
      "\<not> list_all id (take (Suc (nat ?nb)) (alloc_plan s))"
      using alloc_fail_take[OF False] by blast+
    then show ?thesis using run by (simp add: alloc_next_def)
  next
    case ok: True
    show ?thesis
    proof (cases "k \<le> int (NGROUPS_SMALL c)")
      case small: True
      define gi where "gi = \<lparr>usage = 1, ngroups = k, nblocks = 1,
          small_block = map (stale s) [0..<NGROUPS_SMALL c], blocks = [Small_block]\<rparr>"
      define s' where "s' = (alloc_next s)\<lparr>brk := brk s + 1, kmem := (kmem s)(brk s \<mapsto> gi)\<rparr>"
      have run: "groups_alloc c k s = Some (Some (brk s), s')"
        using groups_alloc_small[OF lim k small fit ok] by (simp add: s'_def gi_def)
      have okgi: "group_info_ok c gi" using lim k small kmax by (simp add: group_info_ok_def gi_def)
      have hp: "held_pages c gi = 0" using small by (simp add: held_pages_def gi_def)
      have nb1: "max 1 ?nb = 1" using ceil_small[OF p(1) k] small p(2) by simp
      have km: "kmem s' = (kmem s)(brk s \<mapsto> gi)" "pages s' = pages s + held_pages c gi"
        by (simp_all add: s'_def alloc_next_def hp)
      have plan: "list_all id (take (Suc 0) (alloc_plan s))"
        using alloc_ok_take[OF ok, of 0] by simp
      have fields: "ngroups gi = k" "nblocks gi = 1" "usage gi = 1" by (simp_all add: gi_def)
      have "\<exists>g. kmem s' = (kmem s)(brk s \<mapsto> g) \<and> ngroups g = k \<and> nblocks g = max 1 ?nb
            \<and> usage g = 1 \<and> group_info_ok c g \<and> pages s' = pages s + held_pages c g"
        using km fields okgi nb1 by (intro exI[of _ gi]) simp
      then show ?thesis
        using run small plan fresh released[OF km fields(3) okgi] by simp
    next
      case big: False
      have pg: "0 < ?nb \<and> k \<le> ?nb * ?p \<and>
         (if list_all id (take (nat ?nb) (tl (alloc_plan s)))
          then \<exists>bs. int (length bs) = ?nb \<and> list_all (is_page c) bs \<and>
               groups_alloc c k s =
                 Some (Some (brk s),
                   s\<lparr>brk := brk s + 1, pages := pages s + ?nb,
                      alloc_plan := drop (Suc (nat ?nb)) (alloc_plan s),
                      kmem := (kmem s)(brk s \<mapsto> \<lparr>usage = 1, ngroups = k, nblocks = ?nb,
                         small_block = map (stale s) [0..<NGROUPS_SMALL c], blocks = bs\<rparr>)\<rparr>)
          else \<exists>m. groups_alloc c k s =
                 Some (None, s\<lparr>brk := brk s + 1, alloc_plan := drop m (alloc_plan s)\<rparr>))"
        by (rule groups_alloc_paged[OF lim big fit ok fresh])
      have planeq: "list_all id (take (1 + nat ?nb) (alloc_plan s))
          = list_all id (take (nat ?nb) (tl (alloc_plan s)))"
        using alloc_ok_take[OF ok, of "nat ?nb"] by simp
      show ?thesis
      proof (cases "list_all id (take (nat ?nb) (tl (alloc_plan s)))")
        case False
        then obtain m where run: "groups_alloc c k s =
            Some (None, s\<lparr>brk := brk s + 1, alloc_plan := drop m (alloc_plan s)\<rparr>)"
          using pg by auto
        show ?thesis using run big False planeq by simp
      next
        case True
        then obtain bs where bs: "int (length bs) = ?nb" "list_all (is_page c) bs"
          and run: "groups_alloc c k s =
            Some (Some (brk s),
              s\<lparr>brk := brk s + 1, pages := pages s + ?nb,
                 alloc_plan := drop (Suc (nat ?nb)) (alloc_plan s),
                 kmem := (kmem s)(brk s \<mapsto> \<lparr>usage = 1, ngroups = k, nblocks = ?nb,
                    small_block = map (stale s) [0..<NGROUPS_SMALL c], blocks = bs\<rparr>)\<rparr>)"
          using pg by auto
        define gi where "gi = \<lparr>usage = 1, ngroups = k, nblocks = ?nb,
            small_block = map (stale s) [0..<NGROUPS_SMALL c], blocks = bs\<rparr>"
        define s' where "s' = s\<lparr>brk := brk s + 1, pages := pages s + ?nb,
            alloc_plan := drop (Suc (nat ?nb)) (alloc_plan s), kmem := (kmem s)(brk s \<mapsto> gi)\<rparr>"
        have run': "groups_alloc c k s = Some (Some (brk s), s')" using run by (simp add: s'_def gi_def)
        have okgi: "group_info_ok c gi"
          using lim k big kmax bs pg by (simp add: group_info_ok_def gi_def)
        have hp: "held_pages c gi = ?nb" using big by (simp add: held_pages_def gi_def)
        have nbm: "max 1 ?nb = ?nb" using pg by simp
        have km: "kmem s' = (kmem s)(brk s \<mapsto> gi)" "pages s' = pages s + held_pages c gi"
          by (simp_all add: s'_def hp)
        have fields: "ngroups gi = k" "nblocks gi = ?nb" "usage gi = 1" by (simp_all add: gi_def)
        have "\<exists>g. kmem s' = (kmem s)(brk s \<mapsto> g) \<and> ngroups g = k \<and> nblocks g = max 1 ?nb
              \<and> usage g = 1 \<and> group_info_ok c g \<and> pages s' = pages s + held_pages c g"
          using km fields okgi nbm by (intro exI[of _ gi]) simp
        then show ?thesis
          using run' big True planeq fresh released[OF km fields(3) okgi] by simp
      qed
    qed
  qed
qed

theorem groups_alloc_release_witness:
  "limits_ok ex_limits \<and> (0::int) \<le> 2000
   \<and> 2000 + int (NGROUPS_PER_BLOCK ex_limits) - 1 \<le> INT_MAX
   \<and> heap_ok (ex_state\<lparr>alloc_plan := [True, True, False]\<rparr>)
   \<and> (\<exists>s'. groups_alloc ex_limits 2000 (ex_state\<lparr>alloc_plan := [True, True, False]\<rparr>) = Some (None, s')
         \<and> kmem s' = kmem ex_state \<and> pages s' = pages ex_state)"
proof -
  let ?s = "ex_state\<lparr>alloc_plan := [True, True, False]\<rparr>"
  have h1: "limits_ok ex_limits" by (rule limits_ok_ex)
  have h2: "(0::int) \<le> 2000" by simp
  have h3: "2000 + int (NGROUPS_PER_BLOCK ex_limits) - 1 \<le> INT_MAX"
    by (simp add: ex_limits_def INT_MAX_def)
  have h4: "heap_ok ?s" by (simp add: heap_ok_def ex_state_def)
  obtain r s' where r: "groups_alloc ex_limits 2000 ?s = Some (r, s')"
    "(r \<noteq> None) =
        list_all id (take (if 2000 \<le> int (NGROUPS_SMALL ex_limits) then 1
             else 1 + nat ((2000 + int (NGROUPS_PER_BLOCK ex_limits) - 1) div int (NGROUPS_PER_BLOCK ex_limits)))
           (alloc_plan ?s))"
    "case r of None \<Rightarrow> kmem s' = kmem ?s \<and> pages s' = pages ?s | Some p \<Rightarrow> True"
    using groups_alloc_release[OF h1 h2 h3 h4] by (auto split: option.splits)
  have "r = None" using r(2) by (simp add: ex_limits_def)
  then show ?thesis using r(1,3) h1 h2 h3 h4 by simp
qed

lemma ex_request_facts:
  "kmem (ex_request xs) 1 = Some (small_set xs)"
  "kmem (ex_request xs) 0 = Some (small_set [100, 200])"
  "current_cred (ex_request xs) = current_cred ex_state"
  "cred_group_info (current_cred ex_state) = 0"
  "cap_setgid (current_cred ex_state) = False"
  "alloc_ok (ex_request xs)"
  "usage (small_set xs) = 1"
  "ngroups (small_set xs) = int (length xs)"
  by (simp_all add: ex_request_def ex_state_def small_set_def alloc_ok_def)



text \<open>
  C1, what the gate does. \<open>set_current_groups\<close>, once the draft has been obtained: the
  requested set is sorted in place; when the task lacks \<open>CAP_SETGID\<close> and \<open>is_subset\<close> of
  the sorted request in the current set is false, that is, when some identifier occurs
  more often in the request than in the current set, the result is \<open>EPERM\<close>, the draft's
  reference is dropped, and the current credentials and every live structure but the
  (sorted) request are as before; otherwise the result is 0, the current credentials point
  to the request, which has gained the credentials' reference, and the previous set has
  lost it. The current set is sorted and referenced, as every installed set is.
\<close>

theorem set_current_groups_gate:
  assumes p: "kmem s p = Some gp" and okp: "group_info_ok c gp"
    and n: "ngroups gp \<le> 1743392200"
    and q: "kmem s (cred_group_info (current_cred s)) = Some gq" and okq: "group_info_ok c gq"
    and sq: "sorted (gids c gq)" and uq: "0 < usage gq" and draft: "alloc_ok s"
  shows "\<exists>gp' s'. groups_sort c gp = Some gp' \<and> sorted (gids c gp')
     \<and> mset (gids c gp') = mset (gids c gp)
     \<and> is_subset c gp' gq = Some (mset (gids c gp) \<subseteq># mset (gids c gq))
     \<and> (if \<not> cap_setgid (current_cred s) \<and> is_subset c gp' gq = Some False
        then set_current_groups c p s = Some (Inl EPERM, s')
          \<and> current_cred s' = current_cred s
          \<and> kmem s' (cred_group_info (current_cred s)) = Some gq
          \<and> kmem s' = (kmem s)(p \<mapsto> gp') \<and> pages s' = pages s
        else set_current_groups c p s = Some (Inr 0, s')
          \<and> current_cred s' = (current_cred s)\<lparr>cred_group_info := p\<rparr>
          \<and> (if p = cred_group_info (current_cred s) then kmem s' = kmem s \<and> pages s' = pages s
              else kmem s' p = Some (gp'\<lparr>usage := usage gp + 1\<rparr>)
                \<and> kmem s' (cred_group_info (current_cred s)) =
                    (if usage gq = 1 then None else Some (gq\<lparr>usage := usage gq - 1\<rparr>))))"
proof -
  let ?q = "cred_group_info (current_cred s)"
  obtain gp' where r: "groups_sort c gp = Some gp'" "sorted (gids c gp')"
    "mset (gids c gp') = mset (gids c gp)"
    "is_subset c gp' gq = Some (mset (gids c gp') \<subseteq># mset (gids c gq))"
    and branch: "if \<not> cap_setgid (current_cred s) \<and> \<not> mset (gids c gp') \<subseteq># mset (gids c gq)
        then p \<noteq> ?q
          \<and> set_current_groups c p s = Some (Inl EPERM, (alloc_next s)\<lparr>kmem := (kmem s)(p \<mapsto> gp')\<rparr>)
        else \<exists>s'. set_current_groups c p s = Some (Inr 0, s')
          \<and> current_cred s' = (current_cred s)\<lparr>cred_group_info := p\<rparr>
          \<and> alloc_plan s' = tl (alloc_plan s)
          \<and> (if p = ?q then kmem s' = kmem s \<and> pages s' = pages s
              else if usage gq = 1
              then kmem s' = (kmem s)(?q := None, p \<mapsto> gp'\<lparr>usage := usage gp + 1\<rparr>)
                   \<and> pages s' = pages s - held_pages c gq
              else kmem s' = (kmem s)(?q \<mapsto> gq\<lparr>usage := usage gq - 1\<rparr>,
                                      p \<mapsto> gp'\<lparr>usage := usage gp + 1\<rparr>)
                   \<and> pages s' = pages s)"
    using set_current_groups_run[OF assms] by blast
  have sub: "is_subset c gp' gq = Some (mset (gids c gp) \<subseteq># mset (gids c gq))"
    using r(3,4) by simp
  have deny: "(is_subset c gp' gq = Some False) = (\<not> mset (gids c gp') \<subseteq># mset (gids c gq))"
    using r(4) by simp
  show ?thesis
  proof (cases "\<not> cap_setgid (current_cred s) \<and> \<not> mset (gids c gp') \<subseteq># mset (gids c gq)")
    case True
    let ?s' = "(alloc_next s)\<lparr>kmem := (kmem s)(p \<mapsto> gp')\<rparr>"
    have b: "p \<noteq> ?q" "set_current_groups c p s = Some (Inl EPERM, ?s')"
      using branch True by simp_all
    have "current_cred ?s' = current_cred s" "kmem ?s' ?q = Some gq"
      "kmem ?s' = (kmem s)(p \<mapsto> gp')" "pages ?s' = pages s"
      using b(1) q by (simp_all add: alloc_next_def)
    then show ?thesis using r(1,2,3) sub b(2) True deny
      by (intro exI[of _ gp'] exI[of _ ?s']) simp
  next
    case False
    have "\<exists>s'. set_current_groups c p s = Some (Inr 0, s')
          \<and> current_cred s' = (current_cred s)\<lparr>cred_group_info := p\<rparr>
          \<and> alloc_plan s' = tl (alloc_plan s)
          \<and> (if p = ?q then kmem s' = kmem s \<and> pages s' = pages s
              else if usage gq = 1
              then kmem s' = (kmem s)(?q := None, p \<mapsto> gp'\<lparr>usage := usage gp + 1\<rparr>)
                   \<and> pages s' = pages s - held_pages c gq
              else kmem s' = (kmem s)(?q \<mapsto> gq\<lparr>usage := usage gq - 1\<rparr>,
                                      p \<mapsto> gp'\<lparr>usage := usage gp + 1\<rparr>)
                   \<and> pages s' = pages s)"
      using branch by (simp only: if_not_P[OF False])
    then obtain s' where s': "set_current_groups c p s = Some (Inr 0, s')"
      "current_cred s' = (current_cred s)\<lparr>cred_group_info := p\<rparr>"
      "if p = ?q then kmem s' = kmem s \<and> pages s' = pages s
       else if usage gq = 1
       then kmem s' = (kmem s)(?q := None, p \<mapsto> gp'\<lparr>usage := usage gp + 1\<rparr>)
            \<and> pages s' = pages s - held_pages c gq
       else kmem s' = (kmem s)(?q \<mapsto> gq\<lparr>usage := usage gq - 1\<rparr>,
                               p \<mapsto> gp'\<lparr>usage := usage gp + 1\<rparr>)
            \<and> pages s' = pages s"
      by blast
    have "if p = ?q then kmem s' = kmem s \<and> pages s' = pages s
          else kmem s' p = Some (gp'\<lparr>usage := usage gp + 1\<rparr>)
            \<and> kmem s' ?q = (if usage gq = 1 then None else Some (gq\<lparr>usage := usage gq - 1\<rparr>))"
      using s'(3) by (auto split: if_splits)
    moreover have "\<not> (\<not> cap_setgid (current_cred s) \<and> is_subset c gp' gq = Some False)"
      using False deny by simp
    ultimately show ?thesis using r(1,2,3) sub s'(1,2)
      by (intro exI[of _ gp'] exI[of _ s']) (simp only: if_not_P, simp)
  qed
qed

lemma not_subset_400: "\<not> mset [400, 200] \<subseteq># mset [100, 200::kgid_t]"
proof
  assume "mset [400, 200] \<subseteq># mset [100, 200::kgid_t]"
  then have "set_mset (mset [400, 200::kgid_t]) \<subseteq> set_mset (mset [100, 200])" by (rule set_mset_mono)
  then show False by simp
qed

theorem set_current_groups_gate_witness:
  "(\<exists>s'. set_current_groups ex_limits 1 (ex_request [400, 200]) = Some (Inl EPERM, s')
       \<and> current_cred s' = current_cred ex_state \<and> kmem s' 0 = Some (small_set [100, 200]))
   \<and> (\<exists>s' g. set_current_groups ex_limits 1 (ex_request [200]) = Some (Inr 0, s')
       \<and> cred_group_info (current_cred s') = 1 \<and> kmem s' 1 = Some g \<and> gids ex_limits g = [200]
       \<and> kmem s' 0 = None)"
proof -
  have okq: "group_info_ok ex_limits (small_set [100, 200])" by (simp add: small_set_ok)
  have sq: "sorted (gids ex_limits (small_set [100, 200]))" by (simp add: gids_small_set)
  have uq: "0 < usage (small_set [100, 200])" by (simp add: ex_request_facts)
  have q: "\<And>xs. kmem (ex_request xs) (cred_group_info (current_cred (ex_request xs))) = Some (small_set [100, 200])"
    by (simp add: ex_request_facts)
  have ok1: "group_info_ok ex_limits (small_set [400, 200])" by (simp add: small_set_ok)
  have n1: "ngroups (small_set [400, 200]) \<le> 1743392200" by (simp add: ex_request_facts)
  have ok2: "group_info_ok ex_limits (small_set [200])" by (simp add: small_set_ok)
  have n2: "ngroups (small_set [200]) \<le> 1743392200" by (simp add: ex_request_facts)
  have a: "\<exists>s'. set_current_groups ex_limits 1 (ex_request [400, 200]) = Some (Inl EPERM, s')
       \<and> current_cred s' = current_cred ex_state \<and> kmem s' 0 = Some (small_set [100, 200])"
    using set_current_groups_gate[OF ex_request_facts(1) ok1 n1 q okq sq uq ex_request_facts(6)]
      not_subset_400
    by (auto simp: ex_request_facts gids_small_set)
  have b: "\<exists>s' g. set_current_groups ex_limits 1 (ex_request [200]) = Some (Inr 0, s')
       \<and> cred_group_info (current_cred s') = 1 \<and> kmem s' 1 = Some g \<and> gids ex_limits g = [200]
       \<and> kmem s' 0 = None"
    using set_current_groups_gate[OF ex_request_facts(1) ok2 n2 q okq sq uq ex_request_facts(6)]
    by (auto simp: ex_request_facts gids_small_set gids_usage)
  show ?thesis using a b by blast
qed

lemma not_subset_twice: "\<not> mset [100, 100] \<subseteq># mset [100, 200::kgid_t]"
proof
  assume "mset [100, 100] \<subseteq># mset [100, 200::kgid_t]"
  then have "count (mset [100, 100::kgid_t]) 100 \<le> count (mset [100, 200::kgid_t]) 100"
    by (rule mset_subset_eq_count)
  then show False by simp
qed

text \<open>
  C1, as stated, fails where the request names an identifier twice. A task without
  \<open>CAP_SETGID\<close> whose current set is \<open>{100, 200}\<close> requests \<open>[100, 100]\<close>: every
  identifier of the request is in the current set, yet \<open>set_current_groups\<close> returns
  \<open>EPERM\<close> and installs nothing. The cause is \<open>is_subset\<close>, which passes each identifier
  of the current set at most once (see C2).
\<close>

theorem set_current_groups_duplicates_counterexample:
  "cap_setgid (current_cred (ex_request [100, 100])) = False
   \<and> kmem (ex_request [100, 100]) (cred_group_info (current_cred (ex_request [100, 100])))
       = Some (small_set [100, 200])
   \<and> kmem (ex_request [100, 100]) 1 = Some (small_set [100, 100])
   \<and> set (gids ex_limits (small_set [100, 100])) \<subseteq> set (gids ex_limits (small_set [100, 200]))
   \<and> set_current_groups ex_limits 1 (ex_request [100, 100])
       = Some (Inl EPERM, ex_request [100, 100])"
proof -
  let ?s = "ex_request [100, 100]"
  have okp: "group_info_ok ex_limits (small_set [100, 100])" by (simp add: small_set_ok)
  have okq: "group_info_ok ex_limits (small_set [100, 200])" by (simp add: small_set_ok)
  have sp: "sorted (gids ex_limits (small_set [100, 100]))" by (simp add: gids_small_set)
  have sq: "sorted (gids ex_limits (small_set [100, 200]))" by (simp add: gids_small_set)
  have uq: "0 < usage (small_set [100, 200])" by (simp add: ex_request_facts)
  have n: "ngroups (small_set [100, 100]) \<le> 1743392200" by (simp add: ex_request_facts)
  have q: "kmem ?s (cred_group_info (current_cred ?s)) = Some (small_set [100, 200])"
    by (simp add: ex_request_facts)
  have id: "groups_sort ex_limits (small_set [100, 100]) = Some (small_set [100, 100])"
    by (rule groups_sort_sorted_id[OF okp sp n])
  obtain gp' where run: "groups_sort ex_limits (small_set [100, 100]) = Some gp'"
    and branch: "if \<not> cap_setgid (current_cred ?s)
            \<and> \<not> mset (gids ex_limits gp') \<subseteq># mset (gids ex_limits (small_set [100, 200]))
        then 1 \<noteq> cred_group_info (current_cred ?s)
          \<and> set_current_groups ex_limits 1 ?s
              = Some (Inl EPERM, (alloc_next ?s)\<lparr>kmem := (kmem ?s)(1 \<mapsto> gp')\<rparr>)
        else \<exists>s'. set_current_groups ex_limits 1 ?s = Some (Inr 0, s')
          \<and> current_cred s' = (current_cred ?s)\<lparr>cred_group_info := 1\<rparr>
          \<and> alloc_plan s' = tl (alloc_plan ?s)
          \<and> (if 1 = cred_group_info (current_cred ?s) then kmem s' = kmem ?s \<and> pages s' = pages ?s
              else if usage (small_set [100, 200]) = 1
              then kmem s' = (kmem ?s)(cred_group_info (current_cred ?s) := None,
                                      1 \<mapsto> gp'\<lparr>usage := usage (small_set [100, 100]) + 1\<rparr>)
                   \<and> pages s' = pages ?s - held_pages ex_limits (small_set [100, 200])
              else kmem s' = (kmem ?s)(cred_group_info (current_cred ?s) \<mapsto>
                                        (small_set [100, 200])\<lparr>usage := usage (small_set [100, 200]) - 1\<rparr>,
                                      1 \<mapsto> gp'\<lparr>usage := usage (small_set [100, 100]) + 1\<rparr>)
                   \<and> pages s' = pages ?s)"
    using set_current_groups_run[OF ex_request_facts(1) okp n q okq sq uq ex_request_facts(6)]
    by blast
  have e: "gp' = small_set [100, 100]" using run id by simp
  have nocap: "\<not> cap_setgid (current_cred ?s)" by (simp add: ex_request_facts)
  have nosub: "\<not> mset (gids ex_limits gp') \<subseteq># mset (gids ex_limits (small_set [100, 200]))"
    using not_subset_twice by (simp add: e gids_small_set)
  have deny: "\<not> cap_setgid (current_cred ?s)
      \<and> \<not> mset (gids ex_limits gp') \<subseteq># mset (gids ex_limits (small_set [100, 200]))"
    using nocap nosub by (rule conjI)
  from branch[unfolded if_P[OF deny]] have r: "set_current_groups ex_limits 1 ?s
      = Some (Inl EPERM, (alloc_next ?s)\<lparr>kmem := (kmem ?s)(1 \<mapsto> gp')\<rparr>)"
    by (rule conjunct2)
  have k1: "kmem ?s 1 = Some (small_set [100, 100])" by (rule ex_request_facts(1))
  have "(kmem ?s)(1 \<mapsto> gp') = kmem ?s" using k1 e by (simp only: fun_upd_idem)
  moreover have "alloc_next ?s = ?s" by (simp add: alloc_next_def ex_request_def ex_state_def)
  ultimately have st: "(alloc_next ?s)\<lparr>kmem := (kmem ?s)(1 \<mapsto> gp')\<rparr> = ?s" by simp
  have c5: "set_current_groups ex_limits 1 ?s = Some (Inl EPERM, ?s)" using r st by simp
  have c1: "cap_setgid (current_cred ?s) = False" using nocap by simp
  have c4: "set (gids ex_limits (small_set [100, 100])) \<subseteq> set (gids ex_limits (small_set [100, 200]))"
    by (simp add: gids_small_set)
  show ?thesis by (intro conjI c1 q k1 c4 c5)
qed

lemma ex_state_cred:
  "kmem ex_state (cred_group_info (current_cred ex_state)) = Some (small_set [100, 200])"
  "fsgid (current_cred ex_state) = 1000" "egid (current_cred ex_state) = 1000"
  "current_task ex_state = 1" "dumpTsk ex_state = 0"
  by (simp_all add: ex_state_def)

text \<open>
  C9. When \<open>get_dumpTsk()\<close> is the current task, \<open>in_group_p\<close> returns 1 for the
  identifiers 1015 and 1028 without looking at the credentials. In every other case it
  returns 1 when the identifier is the credentials' \<open>fsgid\<close> and otherwise the result of
  \<open>groups_search\<close> in the current group set; with a sorted current set, 1 exactly when
  the identifier is the \<open>fsgid\<close> or in the set.
\<close>

theorem in_group_p_coredump:
  "(get_dumpTsk s = current_task s \<and> (grp = 1015 \<or> grp = 1028) \<longrightarrow> in_group_p c grp s = Some 1)
   \<and> (\<not> (get_dumpTsk s = current_task s \<and> (grp = 1015 \<or> grp = 1028)) \<longrightarrow>
        in_group_p c grp s =
          (if grp = fsgid (current_cred s) then Some 1
           else case kmem s (cred_group_info (current_cred s)) of
                  None \<Rightarrow> None
                | Some gi \<Rightarrow> groups_search c (Some gi) grp))
   \<and> (kmem s (cred_group_info (current_cred s)) = Some gi \<and> group_info_ok c gi
        \<and> sorted (gids c gi) \<longrightarrow>
        in_group_p c grp s =
          Some (if (get_dumpTsk s = current_task s \<and> (grp = 1015 \<or> grp = 1028))
                   \<or> grp = fsgid (current_cred s) \<or> grp \<in> set (gids c gi)
                then 1 else 0))"
proof (intro conjI impI)
  assume "get_dumpTsk s = current_task s \<and> (grp = 1015 \<or> grp = 1028)"
  then show "in_group_p c grp s = Some 1"
    by (auto simp: in_group_p_def kgid_val_def AID_SDCARD_RW_def AID_SDCARD_R_def)
next
  assume "\<not> (get_dumpTsk s = current_task s \<and> (grp = 1015 \<or> grp = 1028))"
  then show "in_group_p c grp s =
      (if grp = fsgid (current_cred s) then Some 1
       else case kmem s (cred_group_info (current_cred s)) of
              None \<Rightarrow> None
            | Some gi \<Rightarrow> groups_search c (Some gi) grp)"
    by (auto simp: in_group_p_def kgid_val_def gid_eq_def AID_SDCARD_RW_def AID_SDCARD_R_def Let_def)
next
  assume h: "kmem s (cred_group_info (current_cred s)) = Some gi \<and> group_info_ok c gi
      \<and> sorted (gids c gi)"
  then have "groups_search c (Some gi) grp = Some (if grp \<in> set (gids c gi) then 1 else 0)"
    using groups_search_sorted by blast
  then show "in_group_p c grp s =
      Some (if (get_dumpTsk s = current_task s \<and> (grp = 1015 \<or> grp = 1028))
               \<or> grp = fsgid (current_cred s) \<or> grp \<in> set (gids c gi)
            then 1 else 0)"
    using h
    by (auto simp: in_group_p_def kgid_val_def gid_eq_def AID_SDCARD_RW_def AID_SDCARD_R_def Let_def)
qed

theorem in_group_p_coredump_witness:
  "in_group_p ex_limits 1015 (ex_state\<lparr>dumpTsk := 1\<rparr>) = Some 1
   \<and> in_group_p ex_limits 1028 (ex_state\<lparr>dumpTsk := 1\<rparr>) = Some 1
   \<and> in_group_p ex_limits 300 (ex_state\<lparr>dumpTsk := 1\<rparr>) = Some 0
   \<and> in_group_p ex_limits 1015 ex_state = Some 0
   \<and> in_group_p ex_limits 200 ex_state = Some 1
   \<and> in_group_p ex_limits 1000 ex_state = Some 1"
proof -
  have ok: "group_info_ok ex_limits (small_set [100, 200])" by (simp add: small_set_ok)
  have g: "gids ex_limits (small_set [100, 200]) = [100, 200]" by (simp add: gids_small_set)
  have c: "kmem (ex_state\<lparr>dumpTsk := 1\<rparr>) (cred_group_info (current_cred (ex_state\<lparr>dumpTsk := 1\<rparr>)))
      = Some (small_set [100, 200])"
    by (simp add: ex_state_cred)
  show ?thesis
    using in_group_p_coredump[of "ex_state\<lparr>dumpTsk := 1\<rparr>" 1015 ex_limits "small_set [100, 200]"]
      in_group_p_coredump[of "ex_state\<lparr>dumpTsk := 1\<rparr>" 1028 ex_limits "small_set [100, 200]"]
      in_group_p_coredump[of "ex_state\<lparr>dumpTsk := 1\<rparr>" 300 ex_limits "small_set [100, 200]"]
      in_group_p_coredump[of ex_state 1015 ex_limits "small_set [100, 200]"]
      in_group_p_coredump[of ex_state 200 ex_limits "small_set [100, 200]"]
      in_group_p_coredump[of ex_state 1000 ex_limits "small_set [100, 200]"]
      ok c
    by (auto simp: g ex_state_cred get_dumpTsk_def)
qed

text \<open>
  C8, as stated, fails for \<open>in_group_p\<close>. For the coredump task, 1015 is reported a
  member although it is neither the fast-path identifier nor found by the search. And
  the identifier \<open>in_group_p\<close> compares with is the \<open>fsgid\<close> of the credentials, not the
  real group id: a target equal to the real group id 5, which is not in the set, is
  reported not a member.
\<close>

theorem in_group_p_counterexample:
  "get_dumpTsk (ex_state\<lparr>dumpTsk := 1\<rparr>) = current_task (ex_state\<lparr>dumpTsk := 1\<rparr>)
   \<and> fsgid (current_cred (ex_state\<lparr>dumpTsk := 1\<rparr>)) = 1000
   \<and> gid (current_cred (ex_state\<lparr>dumpTsk := 1\<rparr>)) = 1000
   \<and> groups_search ex_limits (kmem (ex_state\<lparr>dumpTsk := 1\<rparr>)
        (cred_group_info (current_cred (ex_state\<lparr>dumpTsk := 1\<rparr>)))) 1015 = Some 0
   \<and> in_group_p ex_limits 1015 (ex_state\<lparr>dumpTsk := 1\<rparr>) = Some 1
   \<and> gid (current_cred (ex_state\<lparr>current_cred := (current_cred ex_state)\<lparr>gid := 5\<rparr>\<rparr>)) = 5
   \<and> in_group_p ex_limits 5 (ex_state\<lparr>current_cred := (current_cred ex_state)\<lparr>gid := 5\<rparr>\<rparr>) = Some 0"
proof -
  have ok: "group_info_ok ex_limits (small_set [100, 200])" by (simp add: small_set_ok)
  have g: "gids ex_limits (small_set [100, 200]) = [100, 200]" by (simp add: gids_small_set)
  have srt: "sorted (gids ex_limits (small_set [100, 200]))" by (simp add: g)
  have s1: "groups_search ex_limits (Some (small_set [100, 200])) 1015 = Some 0"
    using groups_search_sorted[OF ok srt, of 1015] by (simp add: g)
  have s2: "groups_search ex_limits (Some (small_set [100, 200])) 5 = Some 0"
    using groups_search_sorted[OF ok srt, of 5] by (simp add: g)
  have a: "in_group_p ex_limits 1015 (ex_state\<lparr>dumpTsk := 1\<rparr>) = Some 1"
    by (simp add: in_group_p_def get_dumpTsk_def ex_state_def kgid_val_def AID_SDCARD_RW_def)
  have b: "in_group_p ex_limits 5 (ex_state\<lparr>current_cred := (current_cred ex_state)\<lparr>gid := 5\<rparr>\<rparr>) = Some 0"
    using s2
    by (simp add: in_group_p_def get_dumpTsk_def ex_state_def kgid_val_def gid_eq_def
        AID_SDCARD_RW_def AID_SDCARD_R_def)
  show ?thesis using a b s1 by (simp add: ex_state_cred get_dumpTsk_def) (simp add: ex_state_def)
qed

text \<open>
  C8, amended. \<open>in_egroup_p\<close> returns 1 without searching when the target is the
  effective group id, and otherwise the result of \<open>groups_search\<close> in the current group
  set. \<open>in_group_p\<close>, unless the current task is the coredump task and the target is 1015
  or 1028, returns 1 without searching when the target is the filesystem group id
  (\<open>fsgid\<close>), and otherwise the result of the search. With a sorted current set the
  result is 1 exactly for the fast-path identifier and the members of the set.
\<close>

theorem membership_queries:
  "in_egroup_p c grp s =
      (if grp = egid (current_cred s) then Some 1
       else case kmem s (cred_group_info (current_cred s)) of
              None \<Rightarrow> None
            | Some gi \<Rightarrow> groups_search c (Some gi) grp)
   \<and> (\<not> (get_dumpTsk s = current_task s \<and> (grp = 1015 \<or> grp = 1028)) \<longrightarrow>
        in_group_p c grp s =
          (if grp = fsgid (current_cred s) then Some 1
           else case kmem s (cred_group_info (current_cred s)) of
                  None \<Rightarrow> None
                | Some gi \<Rightarrow> groups_search c (Some gi) grp))
   \<and> (kmem s (cred_group_info (current_cred s)) = Some gi \<and> group_info_ok c gi
        \<and> sorted (gids c gi) \<longrightarrow>
        in_egroup_p c grp s =
          Some (if grp = egid (current_cred s) \<or> grp \<in> set (gids c gi) then 1 else 0)
        \<and> (\<not> (get_dumpTsk s = current_task s \<and> (grp = 1015 \<or> grp = 1028)) \<longrightarrow>
             in_group_p c grp s =
               Some (if grp = fsgid (current_cred s) \<or> grp \<in> set (gids c gi) then 1 else 0)))"
proof -
  have e: "in_egroup_p c grp s =
      (if grp = egid (current_cred s) then Some 1
       else case kmem s (cred_group_info (current_cred s)) of
              None \<Rightarrow> None
            | Some gi \<Rightarrow> groups_search c (Some gi) grp)"
    by (simp add: in_egroup_p_def gid_eq_def kgid_val_def Let_def)
  have f: "in_group_p c grp s =
          (if grp = fsgid (current_cred s) then Some 1
           else case kmem s (cred_group_info (current_cred s)) of
                  None \<Rightarrow> None
                | Some gi \<Rightarrow> groups_search c (Some gi) grp)"
    if "\<not> (get_dumpTsk s = current_task s \<and> (grp = 1015 \<or> grp = 1028))"
    using that
    by (auto simp: in_group_p_def kgid_val_def gid_eq_def AID_SDCARD_RW_def AID_SDCARD_R_def Let_def)
  have srch: "groups_search c (Some gi) grp = Some (if grp \<in> set (gids c gi) then 1 else 0)"
    if "group_info_ok c gi" "sorted (gids c gi)"
    using that by (rule groups_search_sorted)
  show ?thesis using e f srch by auto
qed

theorem membership_queries_witness:
  "in_egroup_p ex_limits 1000 ex_state = Some 1
   \<and> in_egroup_p ex_limits 100 ex_state = Some 1
   \<and> in_egroup_p ex_limits 1015 (ex_state\<lparr>dumpTsk := 1\<rparr>) = Some 0
   \<and> in_group_p ex_limits 1000 ex_state = Some 1
   \<and> in_group_p ex_limits 300 ex_state = Some 0"
proof -
  have ok: "group_info_ok ex_limits (small_set [100, 200])" by (simp add: small_set_ok)
  have g: "gids ex_limits (small_set [100, 200]) = [100, 200]" by (simp add: gids_small_set)
  have c: "kmem (ex_state\<lparr>dumpTsk := 1\<rparr>) (cred_group_info (current_cred (ex_state\<lparr>dumpTsk := 1\<rparr>)))
      = Some (small_set [100, 200])"
    by (simp add: ex_state_cred)
  show ?thesis
    using membership_queries[of ex_limits 1000 ex_state "small_set [100, 200]"]
      membership_queries[of ex_limits 100 ex_state "small_set [100, 200]"]
      membership_queries[of ex_limits 1015 "ex_state\<lparr>dumpTsk := 1\<rparr>" "small_set [100, 200]"]
      membership_queries[of ex_limits 300 ex_state "small_set [100, 200]"]
      ok c
    by (auto simp: g ex_state_cred get_dumpTsk_def)
qed










end
